theory Spec2Isabelle
  imports Main
begin

section \<open>Ordered binary decision diagrams: the model\<close>

text \<open>
  A shallow embedding of \<^verbatim>\<open>boolean.py\<close> (the variable registry) and \<^verbatim>\<open>obdd.py\<close>
  (nodes, the node store, negation, restriction, ITE, traversal and the diagram
  operators). Python names are kept; a leading underscore is dropped
  (\<^verbatim>\<open>_ite\<close> is \<open>ite\<close>, \<^verbatim>\<open>_neg\<close> is \<open>neg\<close>, \<^verbatim>\<open>_obddnode\<close> is \<open>obddnode\<close>,
  \<^verbatim>\<open>_obdd\<close> is \<open>obdd\<close>, \<^verbatim>\<open>_restrict\<close> is \<open>restrict_node\<close>, \<^verbatim>\<open>_dfs_postorder\<close> is
  \<open>dfs_postorder_node\<close>), and the operator methods \<^verbatim>\<open>__invert__\<close>, \<^verbatim>\<open>__or__\<close>,
  \<^verbatim>\<open>__and__\<close>, \<^verbatim>\<open>__xor__\<close>, \<^verbatim>\<open>__rshift__\<close>, \<^verbatim>\<open>__rrshift__\<close>, \<^verbatim>\<open>__bool__\<close> are
  \<open>obdd_invert\<close>, \<open>obdd_or\<close>, \<open>obdd_and\<close>, \<open>obdd_xor\<close>, \<open>obdd_rshift\<close>,
  \<open>obdd_rrshift\<close>, \<open>obdd_bool\<close>.
\<close>

subsection \<open>Exceptions\<close>

datatype error = TypeError | ValueError | KeyError

subsection \<open>Nodes and the node store\<close>

text \<open>
  \<^verbatim>\<open>_NODES\<close> maps a key \<open>(root, lo, hi)\<close> to the one node object built for it, and
  \<^verbatim>\<open>_obddnode\<close> is the only place that builds an internal node. A node object is
  therefore identified by its key, and the children in the key are again node
  objects identified by theirs: a node is the term of its key, and Python's
  \<^verbatim>\<open>is\<close> on nodes is equality of these terms. The two terminals are the
  module-level objects \<^verbatim>\<open>BDDNODEZERO\<close> (root \<open>-1\<close>) and \<^verbatim>\<open>BDDNODEONE\<close> (root \<open>-2\<close>).
  The section \<open>The node store with object addresses\<close> justifies this reading
  against a model in which nodes are objects with addresses and \<^verbatim>\<open>_NODES\<close> is a
  table: there, identity of nodes is proved to be equality of these terms.
\<close>

datatype OBDDNode = BDDNODEZERO | BDDNODEONE | Node int OBDDNode OBDDNode

fun root :: "OBDDNode \<Rightarrow> int" where
  "root BDDNODEZERO = -1"
| "root BDDNODEONE = -2"
| "root (Node r lo hi) = r"

definition obddnode :: "int \<Rightarrow> OBDDNode \<Rightarrow> OBDDNode \<Rightarrow> OBDDNode" where
  "obddnode r lo hi = (if lo = hi then lo else Node r lo hi)"

fun neg :: "OBDDNode \<Rightarrow> OBDDNode" where
  "neg BDDNODEZERO = BDDNODEONE"
| "neg BDDNODEONE = BDDNODEZERO"
| "neg (Node r lo hi) = obddnode r (neg lo) (neg hi)"

subsection \<open>Restriction, with its cache\<close>

type_synonym npoint = "int \<rightharpoonup> OBDDNode"
type_synonym cache = "OBDDNode \<rightharpoonup> OBDDNode"

text \<open>
  \<^verbatim>\<open>_restrict(node, npoint, cache)\<close> threads the dictionary \<^verbatim>\<open>cache\<close> through the
  recursion; the model returns it. The lookup
  \<^verbatim>\<open>{BDDNODEZERO: node.lo, BDDNODEONE: node.hi}[val]\<close> raises \<^verbatim>\<open>KeyError\<close> for a value
  that is not a terminal.
\<close>

fun restrict_node :: "OBDDNode \<Rightarrow> npoint \<Rightarrow> cache \<Rightarrow> error + (OBDDNode \<times> cache)" where
  "restrict_node BDDNODEZERO npoint cache = Inr (BDDNODEZERO, cache)"
| "restrict_node BDDNODEONE npoint cache = Inr (BDDNODEONE, cache)"
| "restrict_node (Node r lo hi) npoint cache =
     (case cache (Node r lo hi) of
        Some ret \<Rightarrow> Inr (ret, cache)
      | None \<Rightarrow>
          (case npoint r of
             None \<Rightarrow>
               (case restrict_node lo npoint cache of
                  Inl e \<Rightarrow> Inl e
                | Inr (lo', cache1) \<Rightarrow>
                    (case restrict_node hi npoint cache1 of
                       Inl e \<Rightarrow> Inl e
                     | Inr (hi', cache2) \<Rightarrow>
                         (let ret = obddnode r lo' hi'
                          in Inr (ret, cache2(Node r lo hi \<mapsto> ret)))))
           | Some val \<Rightarrow>
               (if val = BDDNODEZERO then
                  (case restrict_node lo npoint cache of
                     Inl e \<Rightarrow> Inl e
                   | Inr (ret, cache1) \<Rightarrow> Inr (ret, cache1(Node r lo hi \<mapsto> ret)))
                else if val = BDDNODEONE then
                  (case restrict_node hi npoint cache of
                     Inl e \<Rightarrow> Inl e
                   | Inr (ret, cache1) \<Rightarrow> Inr (ret, cache1(Node r lo hi \<mapsto> ret)))
                else Inl KeyError)))"

text \<open>
  The list comprehension \<^verbatim>\<open>[_restrict(node, npoint) for node in (f, g, h)]\<close> of
  \<^verbatim>\<open>_ite\<close>: three top-level calls, each with a fresh cache.
\<close>

definition restrict3 ::
  "OBDDNode \<Rightarrow> OBDDNode \<Rightarrow> OBDDNode \<Rightarrow> npoint \<Rightarrow> error + (OBDDNode \<times> OBDDNode \<times> OBDDNode)" where
  "restrict3 f g h npoint =
     (case restrict_node f npoint Map.empty of
        Inl e \<Rightarrow> Inl e
      | Inr (fv, _) \<Rightarrow>
          (case restrict_node g npoint Map.empty of
             Inl e \<Rightarrow> Inl e
           | Inr (gv, _) \<Rightarrow>
               (case restrict_node h npoint Map.empty of
                  Inl e \<Rightarrow> Inl e
                | Inr (hv, _) \<Rightarrow> Inr (fv, gv, hv))))"

text \<open>Python's \<^verbatim>\<open>min\<close> of a sequence: \<^verbatim>\<open>ValueError\<close> on the empty one.\<close>

fun py_min :: "int list \<Rightarrow> error + int" where
  "py_min [] = Inl ValueError"
| "py_min (x # xs) = Inr (fold min xs x)"

subsection \<open>What restriction computes, without the cache\<close>

fun vars :: "OBDDNode \<Rightarrow> int set" where
  "vars BDDNODEZERO = {}"
| "vars BDDNODEONE = {}"
| "vars (Node r lo hi) = insert r (vars lo \<union> vars hi)"

fun cofactor :: "OBDDNode \<Rightarrow> (int \<rightharpoonup> bool) \<Rightarrow> OBDDNode" where
  "cofactor BDDNODEZERO a = BDDNODEZERO"
| "cofactor BDDNODEONE a = BDDNODEONE"
| "cofactor (Node r lo hi) a =
     (case a r of
        None \<Rightarrow> obddnode r (cofactor lo a) (cofactor hi a)
      | Some b \<Rightarrow> if b then cofactor hi a else cofactor lo a)"

definition terminal_of :: "bool \<Rightarrow> OBDDNode" where
  "terminal_of b = (if b then BDDNODEONE else BDDNODEZERO)"

definition point_of :: "(int \<rightharpoonup> bool) \<Rightarrow> npoint" where
  "point_of a = (\<lambda>r. map_option terminal_of (a r))"

definition cache_ok :: "(int \<rightharpoonup> bool) \<Rightarrow> cache \<Rightarrow> bool" where
  "cache_ok a cache = (\<forall>n ret. cache n = Some ret \<longrightarrow> ret = cofactor n a)"

lemma finite_vars [simp]: "finite (vars n)"
  by (induction n) auto

lemma vars_obddnode: "vars (obddnode r lo hi) \<subseteq> insert r (vars lo \<union> vars hi)"
  by (auto simp: obddnode_def)

lemma vars_cofactor_mem: "x \<in> vars (cofactor n a) \<Longrightarrow> x \<in> vars n \<and> a x = None"
proof (induction n)
  case (Node r lo hi)
  show ?case
  proof (cases "a r")
    case None
    with Node.prems have "x \<in> insert r (vars (cofactor lo a) \<union> vars (cofactor hi a))"
      using vars_obddnode by fastforce
    with None Node.IH show ?thesis by auto
  next
    case (Some b)
    with Node show ?thesis by (cases b) auto
  qed
qed simp_all

lemma vars_cofactor: "vars (cofactor n a) \<subseteq> vars n - dom a"
  using vars_cofactor_mem by (fastforce simp: dom_def)

lemma cache_ok_empty [simp]: "cache_ok a Map.empty"
  by (simp add: cache_ok_def)

lemma cache_ok_upd:
  "cache_ok a cache \<Longrightarrow> ret = cofactor n a \<Longrightarrow> cache_ok a (cache(n \<mapsto> ret))"
  by (simp add: cache_ok_def)

lemma point_of_None: "a r = None \<Longrightarrow> point_of a r = None"
  by (simp add: point_of_def)

lemma point_of_Some: "a r = Some b \<Longrightarrow> point_of a r = Some (terminal_of b)"
  by (simp add: point_of_def)

lemma point_of_single: "[x \<mapsto> terminal_of b] = point_of [x \<mapsto> b]"
  by (auto simp: point_of_def)

text \<open>
  The cached function returns the cofactor, and keeps the cache sound: a hit
  returns what a miss would compute.
\<close>

lemma restrict_node_cofactor:
  "cache_ok a cache \<Longrightarrow>
   \<exists>cache'. restrict_node n (point_of a) cache = Inr (cofactor n a, cache') \<and> cache_ok a cache'"
proof (induction n arbitrary: cache)
  case (Node r lo hi)
  show ?case
  proof (cases "cache (Node r lo hi)")
    case (Some ret)
    moreover from Some Node.prems have "ret = cofactor (Node r lo hi) a"
      unfolding cache_ok_def by blast
    ultimately show ?thesis using Node.prems by (simp del: cofactor.simps)
  next
    case None
    note miss = this
    show ?thesis
    proof (cases "a r")
      case None
      from Node.IH(1)[OF Node.prems] obtain c1 where
        c1: "restrict_node lo (point_of a) cache = Inr (cofactor lo a, c1)" "cache_ok a c1"
        by blast
      from Node.IH(2)[OF c1(2)] obtain c2 where
        c2: "restrict_node hi (point_of a) c1 = Inr (cofactor hi a, c2)" "cache_ok a c2"
        by blast
      have "cache_ok a (c2(Node r lo hi \<mapsto> cofactor (Node r lo hi) a))"
        using c2(2) by (rule cache_ok_upd) simp
      then show ?thesis using miss None c1(1) c2(1)
        by (simp add: point_of_None Let_def)
    next
      case (Some b)
      show ?thesis
      proof (cases b)
        case True
        from Node.IH(2)[OF Node.prems] obtain c1 where
          c1: "restrict_node hi (point_of a) cache = Inr (cofactor hi a, c1)" "cache_ok a c1"
          by blast
        have "cache_ok a (c1(Node r lo hi \<mapsto> cofactor (Node r lo hi) a))"
          using c1(2) by (rule cache_ok_upd) simp
        then show ?thesis using miss Some True c1(1)
          by (simp add: point_of_Some terminal_of_def)
      next
        case False
        from Node.IH(1)[OF Node.prems] obtain c1 where
          c1: "restrict_node lo (point_of a) cache = Inr (cofactor lo a, c1)" "cache_ok a c1"
          by blast
        have "cache_ok a (c1(Node r lo hi \<mapsto> cofactor (Node r lo hi) a))"
          using c1(2) by (rule cache_ok_upd) simp
        then show ?thesis using miss Some False c1(1)
          by (simp add: point_of_Some terminal_of_def)
      qed
    qed
  qed
qed auto

lemma restrict_node_top:
  "\<exists>cache'. restrict_node n (point_of a) Map.empty = Inr (cofactor n a, cache')"
  using restrict_node_cofactor[OF cache_ok_empty] by blast

lemma restrict3_cofactor:
  "restrict3 f g h (point_of a) = Inr (cofactor f a, cofactor g a, cofactor h a)"
proof -
  obtain cf where "restrict_node f (point_of a) Map.empty = Inr (cofactor f a, cf)"
    using restrict_node_top by blast
  moreover obtain cg where "restrict_node g (point_of a) Map.empty = Inr (cofactor g a, cg)"
    using restrict_node_top by blast
  moreover obtain ch where "restrict_node h (point_of a) Map.empty = Inr (cofactor h a, ch)"
    using restrict_node_top by blast
  ultimately show ?thesis by (simp add: restrict3_def)
qed

lemma py_min_mem: "py_min xs = Inr x \<Longrightarrow> x \<in> set xs"
proof (cases xs)
  case (Cons y ys)
  have "fold min zs z \<in> set (z # zs)" for zs and z :: int
    by (induction zs arbitrary: z) (auto simp: min_def)
  with Cons show "py_min xs = Inr x \<Longrightarrow> x \<in> set xs" by auto
qed simp

lemma root_pos_vars: "0 < root n \<Longrightarrow> root n \<in> vars n"
  by (cases n) auto

lemma ite_measure:
  assumes m: "py_min (filter (\<lambda>r. 0 < r) (map root [f, g, h])) = Inr x"
    and r: "restrict3 f g h [x \<mapsto> terminal_of b] = Inr (fv, gv, hv)"
  shows "card (vars fv \<union> vars gv \<union> vars hv) < card (vars f \<union> vars g \<union> vars h)"
proof -
  from r have eq: "fv = cofactor f [x \<mapsto> b]" "gv = cofactor g [x \<mapsto> b]"
      "hv = cofactor h [x \<mapsto> b]"
    by (simp_all add: point_of_single restrict3_cofactor)
  from py_min_mem[OF m] have "x \<in> {r \<in> {root f, root g, root h}. 0 < r}"
    by (auto split: if_splits)
  then have x: "x \<in> vars f \<union> vars g \<union> vars h"
    using root_pos_vars[of f] root_pos_vars[of g] root_pos_vars[of h] by auto
  have "vars fv \<union> vars gv \<union> vars hv \<subseteq> (vars f \<union> vars g \<union> vars h) - {x}"
    using vars_cofactor[of f "[x \<mapsto> b]"] vars_cofactor[of g "[x \<mapsto> b]"]
      vars_cofactor[of h "[x \<mapsto> b]"] unfolding eq by auto
  also have "\<dots> \<subset> vars f \<union> vars g \<union> vars h" using x by blast
  finally show ?thesis by (intro psubset_card_mono) simp_all
qed

subsection \<open>If-then-else\<close>

text \<open>
  \<^verbatim>\<open>_ite(f, g, h)\<close>. The generator \<^verbatim>\<open>node.root for node in (f, g, h) if node.root > 0\<close>
  is the filtered list of roots; \<^verbatim>\<open>min\<close> of it raises when it is empty. The
  recursion ends because restricting by \<open>x\<close> removes \<open>x\<close> from the variables of
  all three nodes.
\<close>

function ite :: "OBDDNode \<Rightarrow> OBDDNode \<Rightarrow> OBDDNode \<Rightarrow> error + OBDDNode" where
  "ite f g h =
     (if g = BDDNODEONE \<and> h = BDDNODEZERO then Inr f
      else if g = BDDNODEZERO \<and> h = BDDNODEONE then Inr (neg f)
      else if f = BDDNODEONE then Inr g
      else if f = BDDNODEZERO then Inr h
      else if g = h then Inr g
      else
        (case py_min (filter (\<lambda>r. 0 < r) (map root [f, g, h])) of
           Inl e \<Rightarrow> Inl e
         | Inr x \<Rightarrow>
             (case restrict3 f g h [x \<mapsto> BDDNODEZERO] of
                Inl e \<Rightarrow> Inl e
              | Inr (fv0, gv0, hv0) \<Rightarrow>
                  (case restrict3 f g h [x \<mapsto> BDDNODEONE] of
                     Inl e \<Rightarrow> Inl e
                   | Inr (fv1, gv1, hv1) \<Rightarrow>
                       (case ite fv0 gv0 hv0 of
                          Inl e \<Rightarrow> Inl e
                        | Inr lo \<Rightarrow>
                            (case ite fv1 gv1 hv1 of
                               Inl e \<Rightarrow> Inl e
                             | Inr hi \<Rightarrow> Inr (obddnode x lo hi)))))))"
  by pat_completeness auto

termination
proof (relation "measure (\<lambda>(f, g, h). card (vars f \<union> vars g \<union> vars h))", goal_cases)
  case 1
  show ?case by simp
next
  case 2
  then show ?case using ite_measure[where b = False]
    by (auto simp: terminal_of_def)
next
  case 3
  then show ?case using ite_measure[where b = True]
    by (auto simp: terminal_of_def)
qed

declare ite.simps [simp del]

subsection \<open>Diagrams and Python objects\<close>

text \<open>
  A diagram wraps one node. \<^verbatim>\<open>_BDDS\<close> maps a node to the one diagram object
  built for it (\<^verbatim>\<open>_obdd\<close>), so a diagram is identified by its node. The
  constants \<^verbatim>\<open>BDDZERO\<close> and \<^verbatim>\<open>BDDONE\<close> are the \<^verbatim>\<open>BDDConstant\<close> objects of the two
  terminals, with \<^verbatim>\<open>value\<close> 0 and 1.
\<close>

datatype OBDD = OBDD (node: OBDDNode)

definition obdd :: "OBDDNode \<Rightarrow> OBDD" where
  "obdd n = OBDD n"

definition BDDZERO :: OBDD where
  "BDDZERO = OBDD BDDNODEZERO"

definition BDDONE :: OBDD where
  "BDDONE = OBDD BDDNODEONE"

text \<open>
  The Python objects that reach \<^verbatim>\<open>var\<close> and \<^verbatim>\<open>box\<close>: \<^verbatim>\<open>None\<close>, booleans, integers,
  strings, tuples and diagrams.
\<close>

datatype pyobj =
    PyNone
  | PyBool bool
  | PyInt int
  | PyStr string
  | PyTuple "pyobj list"
  | PyDiagram OBDD

text \<open>\<^verbatim>\<open>isinstance(x, int)\<close> holds of integers and of booleans (\<^verbatim>\<open>bool\<close> is a subclass).\<close>

fun int_value :: "pyobj \<Rightarrow> int option" where
  "int_value (PyInt i) = Some i"
| "int_value (PyBool b) = Some (if b then 1 else 0)"
| "int_value _ = None"

text \<open>\<^verbatim>\<open>obj == i\<close> for an integer \<open>i\<close> and \<^verbatim>\<open>obj == s\<close> for a string \<open>s\<close>.\<close>

definition py_eq_int :: "pyobj \<Rightarrow> int \<Rightarrow> bool" where
  "py_eq_int obj i = (int_value obj = Some i)"

fun py_eq_str :: "pyobj \<Rightarrow> string \<Rightarrow> bool" where
  "py_eq_str (PyStr t) s = (t = s)"
| "py_eq_str _ s = False"

text \<open>
  In \<^verbatim>\<open>obdd.py\<close> the name \<^verbatim>\<open>boolean\<close> is the imported module \<^verbatim>\<open>boolean.py\<close>; the call
  \<^verbatim>\<open>boolean(x)\<close> raises \<^verbatim>\<open>TypeError\<close> (a module is not callable) for every \<open>x\<close>.
\<close>

definition call_boolean :: "pyobj \<Rightarrow> error + bool" where
  "call_boolean x = Inl TypeError"

definition box :: "pyobj \<Rightarrow> error + OBDD" where
  "box obj =
     (case obj of
        PyDiagram d \<Rightarrow> Inr d
      | _ \<Rightarrow>
          if py_eq_int obj 0 \<or> py_eq_str obj ''0'' then Inr BDDZERO
          else if py_eq_int obj 1 \<or> py_eq_str obj ''1'' then Inr BDDONE
          else (case call_boolean obj of
                  Inl e \<Rightarrow> Inl e
                | Inr b \<Rightarrow> Inr (if b then BDDONE else BDDZERO)))"

text \<open>
  \<^verbatim>\<open>bool(d)\<close>: \<^verbatim>\<open>BDDConstant.__bool__\<close> for the two constants; the other diagram
  classes define neither \<^verbatim>\<open>__bool__\<close> nor \<^verbatim>\<open>__len__\<close>, so the object is true.
\<close>

definition obdd_bool :: "OBDD \<Rightarrow> error + bool" where
  "obdd_bool d =
     (if node d = BDDNODEZERO then call_boolean (PyInt 0)
      else if node d = BDDNODEONE then call_boolean (PyInt 1)
      else Inr True)"

subsection \<open>The operators\<close>

definition obdd_invert :: "OBDD \<Rightarrow> OBDD" where
  "obdd_invert self = obdd (neg (node self))"

definition obdd_or :: "OBDD \<Rightarrow> pyobj \<Rightarrow> error + OBDD" where
  "obdd_or self other =
     (case box other of
        Inl e \<Rightarrow> Inl e
      | Inr b \<Rightarrow> map_sum id obdd (ite (node self) BDDNODEONE (node b)))"

definition obdd_and :: "OBDD \<Rightarrow> pyobj \<Rightarrow> error + OBDD" where
  "obdd_and self other =
     (case box other of
        Inl e \<Rightarrow> Inl e
      | Inr b \<Rightarrow> map_sum id obdd (ite (node self) (node b) BDDNODEZERO))"

definition obdd_xor :: "OBDD \<Rightarrow> pyobj \<Rightarrow> error + OBDD" where
  "obdd_xor self other =
     (case box other of
        Inl e \<Rightarrow> Inl e
      | Inr b \<Rightarrow> map_sum id obdd (ite (node self) (neg (node b)) (node b)))"

definition obdd_rshift :: "OBDD \<Rightarrow> pyobj \<Rightarrow> error + OBDD" where
  "obdd_rshift self other =
     (case box other of
        Inl e \<Rightarrow> Inl e
      | Inr b \<Rightarrow> map_sum id obdd (ite (neg (node self)) BDDNODEONE (node b)))"

definition obdd_rrshift :: "OBDD \<Rightarrow> pyobj \<Rightarrow> error + OBDD" where
  "obdd_rrshift self other =
     (case box other of
        Inl e \<Rightarrow> Inl e
      | Inr b \<Rightarrow> map_sum id obdd (ite (neg (node b)) BDDNODEONE (node self)))"

definition is_zero :: "OBDD \<Rightarrow> bool" where
  "is_zero self = (node self = BDDNODEZERO)"

definition is_one :: "OBDD \<Rightarrow> bool" where
  "is_one self = (node self = BDDNODEONE)"

definition equivalent :: "OBDD \<Rightarrow> pyobj \<Rightarrow> error + bool" where
  "equivalent self other =
     (case box other of
        Inl e \<Rightarrow> Inl e
      | Inr b \<Rightarrow> Inr (node self = node b))"

text \<open>
  \<^verbatim>\<open>restrict(self, point)\<close>: \<^verbatim>\<open>point\<close> is a dictionary from diagrams to values, here
  its items in order; the comprehension builds \<^verbatim>\<open>npoint\<close> item by item, a later
  item with the same root replacing an earlier one.
\<close>

fun make_npoint :: "(OBDD \<times> pyobj) list \<Rightarrow> npoint \<Rightarrow> error + npoint" where
  "make_npoint [] np = Inr np"
| "make_npoint ((v, val) # items) np =
     (case box val of
        Inl e \<Rightarrow> Inl e
      | Inr b \<Rightarrow> make_npoint items (np(root (node v) \<mapsto> node b)))"

definition restrict :: "OBDD \<Rightarrow> (OBDD \<times> pyobj) list \<Rightarrow> error + OBDD" where
  "restrict self point =
     (case make_npoint point Map.empty of
        Inl e \<Rightarrow> Inl e
      | Inr np \<Rightarrow>
          (case restrict_node (node self) np Map.empty of
             Inl e \<Rightarrow> Inl e
           | Inr (n, _) \<Rightarrow> Inr (obdd n)))"

subsection \<open>Traversal\<close>

text \<open>
  \<^verbatim>\<open>_dfs_postorder(node, visited)\<close> is a generator over a mutable set; the model
  returns the nodes it yields, in order, and the set afterwards. The children
  of a terminal are \<^verbatim>\<open>None\<close>.
\<close>

fun dfs_postorder_node :: "OBDDNode \<Rightarrow> OBDDNode set \<Rightarrow> OBDDNode list \<times> OBDDNode set" where
  "dfs_postorder_node (Node r lo hi) visited =
     (let (ys1, visited1) = dfs_postorder_node lo visited;
          (ys2, visited2) = dfs_postorder_node hi visited1
      in if Node r lo hi \<notin> visited2
         then (ys1 @ ys2 @ [Node r lo hi], insert (Node r lo hi) visited2)
         else (ys1 @ ys2, visited2))"
| "dfs_postorder_node t visited =
     (if t \<notin> visited then ([t], insert t visited) else ([], visited))"

definition dfs_postorder :: "OBDD \<Rightarrow> OBDDNode list" where
  "dfs_postorder self = fst (dfs_postorder_node (node self) {})"

section \<open>The variable registry (boolean.py)\<close>

text \<open>
  A \<^verbatim>\<open>Variable\<close> object has the attributes \<open>uniqid\<close>, \<open>names\<close> and \<open>indices\<close>; \<open>obj_id\<close>
  is the identity of the object (Python's \<^verbatim>\<open>id\<close>): the class defines no
  \<^verbatim>\<open>__eq__\<close>, so two variables are equal when they are the same object. The
  identity of a variable is the dictionary key \<open>(names, indices)\<close>; as a key, an
  index \<^verbatim>\<open>True\<close> is the index 1 (equal and with the same hash), so the key holds
  integers.
\<close>

type_synonym identity = "string list \<times> int list"

record Variable =
  uniqid :: int
  names :: "string list"
  indices :: "int list"
  obj_id :: nat

text \<open>
  The module state: the dictionaries \<^verbatim>\<open>VARIABLES\<close> and \<^verbatim>\<open>_UNIQIDS\<close>, the counter
  \<^verbatim>\<open>_COUNT\<close>, and the number of \<^verbatim>\<open>Variable\<close> objects constructed so far.
\<close>

record registry =
  VARIABLES :: "identity \<rightharpoonup> Variable"
  UNIQIDS :: "identity \<rightharpoonup> int"
  COUNT :: int
  next_obj :: nat

definition initial_registry :: registry where
  "initial_registry = \<lparr>VARIABLES = Map.empty, UNIQIDS = Map.empty, COUNT = 1, next_obj = 0\<rparr>"

text \<open>\<^verbatim>\<open>Variable.__init__(self, names, indices)\<close>; \<^verbatim>\<open>dict.get(key, default)\<close>.\<close>

definition Variable_init :: "string list \<Rightarrow> int list \<Rightarrow> registry \<Rightarrow> Variable \<times> registry" where
  "Variable_init ns idx reg =
     (let u = (case UNIQIDS reg (ns, idx) of Some u' \<Rightarrow> u' | None \<Rightarrow> COUNT reg);
          reg1 = (if u = COUNT reg
                  then reg\<lparr>COUNT := COUNT reg + 1, UNIQIDS := (UNIQIDS reg)((ns, idx) \<mapsto> u)\<rparr>
                  else reg)
      in (\<lparr>uniqid = u, names = ns, indices = idx, obj_id = next_obj reg\<rparr>,
          reg1\<lparr>next_obj := next_obj reg + 1\<rparr>))"

text \<open>The checks of \<^verbatim>\<open>var(name, index)\<close>, in the order of the source.\<close>

fun as_names :: "pyobj \<Rightarrow> error + pyobj list" where
  "as_names (PyStr s) = Inr [PyStr s]"
| "as_names (PyTuple xs) = Inr xs"
| "as_names _ = Inl TypeError"

fun check_names :: "pyobj list \<Rightarrow> error + string list" where
  "check_names [] = Inr []"
| "check_names (PyStr s # xs) =
     (case check_names xs of Inl e \<Rightarrow> Inl e | Inr ss \<Rightarrow> Inr (s # ss))"
| "check_names (_ # xs) = Inl TypeError"

fun as_indices :: "pyobj \<Rightarrow> error + pyobj list" where
  "as_indices PyNone = Inr []"
| "as_indices (PyInt i) = Inr [PyInt i]"
| "as_indices (PyBool b) = Inr [PyBool b]"
| "as_indices (PyTuple xs) = Inr xs"
| "as_indices _ = Inl TypeError"

fun check_indices :: "pyobj list \<Rightarrow> error + int list" where
  "check_indices [] = Inr []"
| "check_indices (x # xs) =
     (case int_value x of
        None \<Rightarrow> Inl TypeError
      | Some i \<Rightarrow>
          if i < 0 then Inl ValueError
          else (case check_indices xs of Inl e \<Rightarrow> Inl e | Inr js \<Rightarrow> Inr (i # js)))"

definition identity_of :: "pyobj \<Rightarrow> pyobj \<Rightarrow> error + identity" where
  "identity_of name index =
     (case as_names name of
        Inl e \<Rightarrow> Inl e
      | Inr xs \<Rightarrow>
          if xs = [] then Inl ValueError
          else (case check_names xs of
                  Inl e \<Rightarrow> Inl e
                | Inr ns \<Rightarrow>
                    (case as_indices index of
                       Inl e \<Rightarrow> Inl e
                     | Inr ys \<Rightarrow>
                         (case check_indices ys of
                            Inl e \<Rightarrow> Inl e
                          | Inr idx \<Rightarrow> Inr (ns, idx)))))"

definition var :: "pyobj \<Rightarrow> pyobj \<Rightarrow> registry \<Rightarrow> (error + Variable) \<times> registry" where
  "var name index reg =
     (case identity_of name index of
        Inl e \<Rightarrow> (Inl e, reg)
      | Inr (ns, idx) \<Rightarrow>
          (case VARIABLES reg (ns, idx) of
             Some v \<Rightarrow> (Inr v, reg)
           | None \<Rightarrow>
               (let (v, reg') = Variable_init ns idx reg
                in (Inr v, reg'\<lparr>VARIABLES := (VARIABLES reg')((ns, idx) \<mapsto> v)\<rparr>))))"

text \<open>A sequence of calls of \<^verbatim>\<open>var\<close>, each on the registry the previous one left.\<close>

fun var_calls :: "(pyobj \<times> pyobj) list \<Rightarrow> registry \<Rightarrow> (error + Variable) list \<times> registry" where
  "var_calls [] reg = ([], reg)"
| "var_calls ((name, index) # reqs) reg =
     (let (res, reg1) = var name index reg;
          (ress, reg2) = var_calls reqs reg1
      in (res # ress, reg2))"

section \<open>Variables of diagrams (obdd.py)\<close>

text \<open>
  An \<^verbatim>\<open>OBDDVariable\<close> is a \<^verbatim>\<open>Variable\<close> and a diagram; \<open>as_obdd\<close> is its diagram part
  (the attribute \<^verbatim>\<open>node\<close>, wrapped). \<^verbatim>\<open>_VARS\<close> maps a uniqid to its \<^verbatim>\<open>OBDDVariable\<close>.
\<close>

record OBDDVariable = Variable +
  as_obdd :: OBDD

type_synonym obddvars = "int \<rightharpoonup> OBDDVariable"

definition OBDDVariable_init :: "Variable \<Rightarrow> registry \<Rightarrow> OBDDVariable \<times> registry" where
  "OBDDVariable_init bvar reg =
     (let (v, reg') = Variable_init (names bvar) (indices bvar) reg;
          n = obddnode (uniqid bvar) BDDNODEZERO BDDNODEONE
      in (Variable.extend v \<lparr>as_obdd = OBDD n\<rparr>, reg'))"

definition obddvar ::
  "pyobj \<Rightarrow> pyobj \<Rightarrow> registry \<times> obddvars \<Rightarrow> (error + OBDDVariable) \<times> (registry \<times> obddvars)" where
  "obddvar name index st =
     (case var name index (fst st) of
        (Inl e, reg) \<Rightarrow> (Inl e, (reg, snd st))
      | (Inr bvar, reg) \<Rightarrow>
          (case snd st (uniqid bvar) of
             Some v \<Rightarrow> (Inr v, (reg, snd st))
           | None \<Rightarrow>
               (let (v, reg') = OBDDVariable_init bvar reg
                in (Inr v, (reg', (snd st)(uniqid bvar \<mapsto> v))))))"

text \<open>
  The property \<^verbatim>\<open>inputs\<close>: the loop over the post-order, then \<^verbatim>\<open>reversed\<close>.
  \<^verbatim>\<open>_VARS[node.root]\<close> raises \<^verbatim>\<open>KeyError\<close> for a root that is not registered.
\<close>

fun collect_inputs :: "obddvars \<Rightarrow> OBDDNode list \<Rightarrow> OBDDVariable list \<Rightarrow> error + OBDDVariable list" where
  "collect_inputs VARS [] inputs' = Inr inputs'"
| "collect_inputs VARS (n # ns) inputs' =
     (if 0 < root n then
        (case VARS (root n) of
           None \<Rightarrow> Inl KeyError
         | Some v \<Rightarrow>
             collect_inputs VARS ns (if v \<notin> set inputs' then inputs' @ [v] else inputs'))
      else collect_inputs VARS ns inputs')"

definition inputs :: "obddvars \<Rightarrow> OBDD \<Rightarrow> error + OBDDVariable list" where
  "inputs VARS self = map_sum id rev (collect_inputs VARS (dfs_postorder self) [])"

text \<open>The property \<^verbatim>\<open>top\<close> of \<^verbatim>\<open>boolean.Function\<close>.\<close>

definition top_var :: "obddvars \<Rightarrow> OBDD \<Rightarrow> error + OBDDVariable option" where
  "top_var VARS self =
     (case inputs VARS self of
        Inl e \<Rightarrow> Inl e
      | Inr [] \<Rightarrow> Inr None
      | Inr (v # _) \<Rightarrow> Inr (Some v))"

section \<open>Semantics and the invariant\<close>

text \<open>
  A node denotes a Boolean function of the variables: \<open>lo\<close> is followed when the
  root variable is false, \<open>hi\<close> when it is true. A node is well formed when every
  internal node below it has a positive root (a uniqid), two distinct children,
  and a root smaller than the root of each child that is not a terminal.
\<close>

fun eval_node :: "OBDDNode \<Rightarrow> (int \<Rightarrow> bool) \<Rightarrow> bool" where
  "eval_node BDDNODEZERO env = False"
| "eval_node BDDNODEONE env = True"
| "eval_node (Node r lo hi) env = (if env r then eval_node hi env else eval_node lo env)"

fun is_terminal :: "OBDDNode \<Rightarrow> bool" where
  "is_terminal (Node r lo hi) = False"
| "is_terminal t = True"

fun well_formed :: "OBDDNode \<Rightarrow> bool" where
  "well_formed (Node r lo hi) =
     (0 < r \<and> lo \<noteq> hi \<and> (is_terminal lo \<or> r < root lo) \<and> (is_terminal hi \<or> r < root hi) \<and>
      well_formed lo \<and> well_formed hi)"
| "well_formed t = True"

definition roots_above :: "int \<Rightarrow> OBDDNode \<Rightarrow> bool" where
  "roots_above k n = (\<forall>v \<in> vars n. k < v)"

lemma roots_above_simps [simp]:
  "roots_above k BDDNODEZERO" "roots_above k BDDNODEONE"
  "roots_above k (Node r lo hi) = (k < r \<and> roots_above k lo \<and> roots_above k hi)"
  by (auto simp: roots_above_def)

lemma above_mono: "roots_above k n \<Longrightarrow> j \<le> k \<Longrightarrow> roots_above j n"
  by (auto simp: roots_above_def)

lemma well_formed_above_root:
  "well_formed (Node r lo hi) \<Longrightarrow> roots_above r lo \<and> roots_above r hi"
proof (induction "Node r lo hi" arbitrary: r lo hi rule: OBDDNode.induct)
  case (Node r lo hi)
  have "roots_above r c" if c: "c = lo \<or> c = hi" for c
  proof (cases c)
    case (Node r' lo' hi')
    with c Node.prems have "r < r'" "well_formed (Node r' lo' hi')" by auto
    moreover have "roots_above r' lo' \<and> roots_above r' hi'"
      using Node.hyps c \<open>well_formed (Node r' lo' hi')\<close> unfolding \<open>c = Node r' lo' hi'\<close>[symmetric]
      using \<open>c = Node r' lo' hi'\<close> by blast
    ultimately show ?thesis unfolding \<open>c = Node r' lo' hi'\<close>
      by (auto intro: above_mono)
  qed simp_all
  then show ?case by blast
qed

lemma well_formed_iff:
  "well_formed (Node r lo hi) \<longleftrightarrow>
     0 < r \<and> lo \<noteq> hi \<and> roots_above r lo \<and> roots_above r hi \<and> well_formed lo \<and> well_formed hi"
proof
  assume "well_formed (Node r lo hi)"
  then show "0 < r \<and> lo \<noteq> hi \<and> roots_above r lo \<and> roots_above r hi \<and> well_formed lo \<and> well_formed hi"
    using well_formed_above_root by auto
next
  assume a: "0 < r \<and> lo \<noteq> hi \<and> roots_above r lo \<and> roots_above r hi \<and> well_formed lo \<and> well_formed hi"
  have "is_terminal c \<or> r < root c" if "roots_above r c" for c
    using that by (cases c) auto
  with a show "well_formed (Node r lo hi)" by simp
qed

lemma well_formed_pos: "well_formed n \<Longrightarrow> roots_above 0 n"
  by (induction n) auto

lemma eval_obddnode [simp]:
  "eval_node (obddnode r lo hi) env = (if env r then eval_node hi env else eval_node lo env)"
  by (simp add: obddnode_def)

lemma eval_neg [simp]: "eval_node (neg n) env = (\<not> eval_node n env)"
  by (induction n) auto

definition override :: "(int \<rightharpoonup> bool) \<Rightarrow> (int \<Rightarrow> bool) \<Rightarrow> int \<Rightarrow> bool" where
  "override a env = (\<lambda>r. case a r of Some b \<Rightarrow> b | None \<Rightarrow> env r)"

lemma eval_cofactor: "eval_node (cofactor n a) env = eval_node n (override a env)"
  by (induction n) (auto simp: override_def split: option.splits)

lemma eval_indep: "(\<forall>v \<in> vars n. env v = env' v) \<Longrightarrow> eval_node n env = eval_node n env'"
  by (induction n) auto

lemma well_formed_obddnode:
  "0 < r \<Longrightarrow> roots_above r lo \<Longrightarrow> roots_above r hi \<Longrightarrow> well_formed lo \<Longrightarrow> well_formed hi \<Longrightarrow>
   well_formed (obddnode r lo hi)"
  unfolding obddnode_def using well_formed_iff by auto

lemma above_obddnode:
  "k < r \<Longrightarrow> roots_above k lo \<Longrightarrow> roots_above k hi \<Longrightarrow> roots_above k (obddnode r lo hi)"
  by (simp add: obddnode_def)

lemma above_neg: "roots_above k n \<Longrightarrow> roots_above k (neg n)"
  by (induction n) (auto intro: above_obddnode)

lemma well_formed_neg: "well_formed n \<Longrightarrow> well_formed (neg n)"
proof (induction n)
  case (Node r lo hi)
  then show ?case
    using well_formed_iff[of r lo hi] by (auto intro!: well_formed_obddnode above_neg)
qed simp_all

lemma above_cofactor: "roots_above k n \<Longrightarrow> roots_above k (cofactor n a)"
  using vars_cofactor_mem by (fastforce simp: roots_above_def)

lemma well_formed_cofactor: "well_formed n \<Longrightarrow> well_formed (cofactor n a)"
proof (induction n)
  case (Node r lo hi)
  then show ?case
    using well_formed_iff[of r lo hi]
    by (auto intro!: well_formed_obddnode above_cofactor split: option.splits)
qed simp_all

subsection \<open>Canonicity\<close>

text \<open>
  Two well-formed nodes that denote the same Boolean function are the same
  node. The induction is on the sizes of both; a node whose function does not
  depend on its own root would have two children with one function, hence
  (by induction) equal children.
\<close>

lemma canonical_aux:
  "well_formed s \<Longrightarrow> well_formed t \<Longrightarrow> (\<forall>env. eval_node s env = eval_node t env) \<Longrightarrow> s = t"
proof (induction "size s + size t" arbitrary: s t rule: less_induct)
  case less
  have indep: "eval_node c (env(r := b)) = eval_node c env" if "roots_above r c" for c r env b
    using that by (intro eval_indep) (auto simp: roots_above_def)
  have const: False
    if wf: "well_formed (Node r lo hi)" and wt: "well_formed t'"
      and ab: "roots_above r t'" and sz: "size lo + size hi < size s + size t"
      and eq: "\<forall>env. eval_node (Node r lo hi) env = eval_node t' env"
    for r lo hi t'
  proof -
    from wf have w: "lo \<noteq> hi" "roots_above r lo" "roots_above r hi" "well_formed lo" "well_formed hi"
      using well_formed_iff by auto
    have "eval_node lo env = eval_node hi env" for env
    proof -
      have "eval_node lo env = eval_node lo (env(r := False))" using indep[OF w(2)] by simp
      also have "\<dots> = eval_node (Node r lo hi) (env(r := False))" by simp
      also have "\<dots> = eval_node t' (env(r := False))" using eq by blast
      also have "\<dots> = eval_node t' (env(r := True))" using indep[OF ab] by simp
      also have "\<dots> = eval_node (Node r lo hi) (env(r := True))" using eq by blast
      also have "\<dots> = eval_node hi (env(r := True))" by simp
      also have "\<dots> = eval_node hi env" using indep[OF w(3)] by simp
      finally show ?thesis .
    qed
    then have "lo = hi" using less.hyps[OF sz w(4) w(5)] by blast
    with w(1) show False by simp
  qed
  show ?case
  proof (cases s)
    case BDDNODEZERO
    show ?thesis
    proof (cases t)
      case (Node r lo hi)
      have False
        by (rule const[of r lo hi s]) (use less.prems Node BDDNODEZERO in auto)
      then show ?thesis ..
    qed (use less.prems BDDNODEZERO in auto)
  next
    case BDDNODEONE
    show ?thesis
    proof (cases t)
      case (Node r lo hi)
      have False
        by (rule const[of r lo hi s]) (use less.prems Node BDDNODEONE in auto)
      then show ?thesis ..
    qed (use less.prems BDDNODEONE in auto)
  next
    case s: (Node r lo hi)
    from less.prems(1) s have ws: "lo \<noteq> hi" "roots_above r lo" "roots_above r hi" "well_formed lo" "well_formed hi"
      using well_formed_iff by auto
    show ?thesis
    proof (cases t)
      case BDDNODEZERO
      have False
        by (rule const[of r lo hi t]) (use less.prems s BDDNODEZERO in auto)
      then show ?thesis ..
    next
      case BDDNODEONE
      have False
        by (rule const[of r lo hi t]) (use less.prems s BDDNODEONE in auto)
      then show ?thesis ..
    next
      case t: (Node r' lo' hi')
      from less.prems(2) t have wt: "lo' \<noteq> hi'" "roots_above r' lo'" "roots_above r' hi'"
          "well_formed lo'" "well_formed hi'"
        using well_formed_iff by auto
      consider "r < r'" | "r' < r" | "r = r'" by linarith
      then show ?thesis
      proof cases
        case 1
        have "roots_above r t" using 1 wt t by (auto intro: above_mono)
        then have False
          by (intro const[of r lo hi t]) (use less.prems s t in auto)
        then show ?thesis ..
      next
        case 2
        have "roots_above r' s" using 2 ws s by (auto intro: above_mono)
        then have False
          by (intro const[of r' lo' hi' s]) (use less.prems s t in auto)
        then show ?thesis ..
      next
        case 3
        have "eval_node lo env = eval_node lo' env" for env
        proof -
          have "eval_node lo env = eval_node s (env(r := False))"
            using indep[OF ws(2)] s by simp
          also have "\<dots> = eval_node t (env(r := False))" using less.prems(3) by blast
          also have "\<dots> = eval_node lo' env" using indep[OF wt(2)] t 3 by simp
          finally show ?thesis .
        qed
        then have lo: "lo = lo'"
          using less.hyps[of lo lo'] ws wt s t by auto
        have "eval_node hi env = eval_node hi' env" for env
        proof -
          have "eval_node hi env = eval_node s (env(r := True))"
            using indep[OF ws(3)] s by simp
          also have "\<dots> = eval_node t (env(r := True))" using less.prems(3) by blast
          also have "\<dots> = eval_node hi' env" using indep[OF wt(3)] t 3 by simp
          finally show ?thesis .
        qed
        then have hi: "hi = hi'"
          using less.hyps[of hi hi'] ws wt s t by auto
        from lo hi 3 s t show ?thesis by simp
      qed
    qed
  qed
qed

section \<open>Properties of if-then-else\<close>

text \<open>
  \<open>shortcut\<close> holds when one of the five pattern cases of \<^verbatim>\<open>_ite\<close> applies;
  \<open>split_root\<close> is the root the general case splits on.
\<close>

definition shortcut :: "OBDDNode \<Rightarrow> OBDDNode \<Rightarrow> OBDDNode \<Rightarrow> bool" where
  "shortcut f g h =
     ((g = BDDNODEONE \<and> h = BDDNODEZERO) \<or> (g = BDDNODEZERO \<and> h = BDDNODEONE) \<or>
      f = BDDNODEONE \<or> f = BDDNODEZERO \<or> g = h)"

definition split_root :: "OBDDNode \<Rightarrow> OBDDNode \<Rightarrow> OBDDNode \<Rightarrow> error + int" where
  "split_root f g h = py_min (filter (\<lambda>r. 0 < r) (map root [f, g, h]))"

lemma ite_shortcut:
  "shortcut f g h \<Longrightarrow>
   ite f g h =
     (if g = BDDNODEONE \<and> h = BDDNODEZERO then Inr f
      else if g = BDDNODEZERO \<and> h = BDDNODEONE then Inr (neg f)
      else if f = BDDNODEONE then Inr g
      else if f = BDDNODEZERO then Inr h
      else Inr g)"
  by (subst ite.simps) (auto simp: shortcut_def)

lemma ite_error:
  "\<not> shortcut f g h \<Longrightarrow> split_root f g h = Inl e \<Longrightarrow> ite f g h = Inl e"
  by (subst ite.simps) (simp add: shortcut_def split_root_def)

lemma ite_general:
  assumes "\<not> shortcut f g h" and "split_root f g h = Inr x"
  shows "ite f g h =
     (case ite (cofactor f [x \<mapsto> False]) (cofactor g [x \<mapsto> False]) (cofactor h [x \<mapsto> False]) of
        Inl e \<Rightarrow> Inl e
      | Inr lo \<Rightarrow>
          (case ite (cofactor f [x \<mapsto> True]) (cofactor g [x \<mapsto> True]) (cofactor h [x \<mapsto> True]) of
             Inl e \<Rightarrow> Inl e
           | Inr hi \<Rightarrow> Inr (obddnode x lo hi)))"
proof -
  have z: "[x \<mapsto> BDDNODEZERO] = point_of [x \<mapsto> False]"
    using point_of_single[of x False] by (simp add: terminal_of_def)
  have o: "[x \<mapsto> BDDNODEONE] = point_of [x \<mapsto> True]"
    using point_of_single[of x True] by (simp add: terminal_of_def)
  have ns: "(g = BDDNODEONE \<and> h = BDDNODEZERO) = False" "(g = BDDNODEZERO \<and> h = BDDNODEONE) = False"
      "(f = BDDNODEONE) = False" "(f = BDDNODEZERO) = False" "(g = h) = False"
    using assms(1) by (auto simp: shortcut_def)
  have m: "py_min (filter (\<lambda>r. 0 < r) (map root [f, g, h])) = Inr x"
    using assms(2) by (simp only: split_root_def)
  show ?thesis
    by (subst ite.simps[of f g h])
       (simp only: ns m if_False sum.case z o restrict3_cofactor prod.case)
qed

lemma split_root_props:
  assumes "split_root f g h = Inr x"
  shows "0 < x" and "x \<in> vars f \<union> vars g \<union> vars h"
    and "\<And>n. n \<in> {f, g, h} \<Longrightarrow> 0 < root n \<Longrightarrow> x \<le> root n"
proof -
  let ?xs = "filter (\<lambda>r. 0 < r) (map root [f, g, h])"
  from assms have m: "py_min ?xs = Inr x" by (simp add: split_root_def)
  from py_min_mem[OF m] have mem: "x \<in> {r \<in> {root f, root g, root h}. 0 < r}"
    by (auto split: if_splits)
  then show "0 < x" by simp
  from mem show "x \<in> vars f \<union> vars g \<union> vars h"
    using root_pos_vars[of f] root_pos_vars[of g] root_pos_vars[of h] by auto
  have le: "fold min zs z \<le> y" if "y \<in> set (z # zs)" for zs and z y :: int
    using that Min_le[of "set (z # zs)" y] by (simp only: Min.set_eq_fold[symmetric]) simp
  have "x \<le> y" if "y \<in> set ?xs" for y
  proof (cases ?xs)
    case Nil
    with that show ?thesis by simp
  next
    case (Cons z zs)
    with m have "x = fold min zs z" by simp
    with le[of y z zs] that Cons show ?thesis by simp
  qed
  then show "\<And>n. n \<in> {f, g, h} \<Longrightarrow> 0 < root n \<Longrightarrow> x \<le> root n" by auto
qed

lemma ite_cofactor_measure:
  assumes "split_root f g h = Inr x"
  shows "card (vars (cofactor f [x \<mapsto> b]) \<union> vars (cofactor g [x \<mapsto> b]) \<union> vars (cofactor h [x \<mapsto> b]))
         < card (vars f \<union> vars g \<union> vars h)"
  using ite_measure[of f g h x b] assms
  by (simp add: split_root_def point_of_single restrict3_cofactor)

lemma ite_induct [case_names step]:
  assumes step: "\<And>f g h.
      (\<And>x b. \<not> shortcut f g h \<Longrightarrow> split_root f g h = Inr x \<Longrightarrow>
         P (cofactor f [x \<mapsto> b]) (cofactor g [x \<mapsto> b]) (cofactor h [x \<mapsto> b])) \<Longrightarrow>
      P f g h"
  shows "P f g h"
proof (induction "card (vars f \<union> vars g \<union> vars h)" arbitrary: f g h rule: less_induct)
  case less
  show ?case
    by (rule step) (rule less.hyps, rule ite_cofactor_measure)
qed

lemma ite_defined: "roots_above 0 f \<Longrightarrow> \<exists>r. ite f g h = Inr r"
proof (induction f g h rule: ite_induct)
  case (step f g h)
  show ?case
  proof (cases "shortcut f g h")
    case True
    then show ?thesis by (simp add: ite_shortcut)
  next
    case False
    then obtain r lo hi where f: "f = Node r lo hi"
      by (cases f) (auto simp: shortcut_def)
    with step.prems have "0 < r" by simp
    then obtain x where x: "split_root f g h = Inr x"
      by (auto simp: split_root_def f)
    have "roots_above 0 (cofactor f [x \<mapsto> b])" for b
      using step.prems by (rule above_cofactor)
    from step.IH[OF False x this] obtain lo' hi' where
      "ite (cofactor f [x \<mapsto> False]) (cofactor g [x \<mapsto> False]) (cofactor h [x \<mapsto> False]) = Inr lo'"
      "ite (cofactor f [x \<mapsto> True]) (cofactor g [x \<mapsto> True]) (cofactor h [x \<mapsto> True]) = Inr hi'"
      by blast
    then show ?thesis by (simp add: ite_general[OF False x])
  qed
qed

lemma override_single_same: "env x = b \<Longrightarrow> override [x \<mapsto> b] env = env"
  by (auto simp: override_def)

lemma eval_ite:
  "ite f g h = Inr r \<Longrightarrow>
   eval_node r env = (if eval_node f env then eval_node g env else eval_node h env)"
proof (induction f g h arbitrary: r rule: ite_induct)
  case (step f g h)
  show ?case
  proof (cases "shortcut f g h")
    case True
    with step.prems show ?thesis
      by (auto simp: ite_shortcut shortcut_def split: if_splits)
  next
    case False
    show ?thesis
    proof (cases "split_root f g h")
      case (Inl e)
      with False step.prems show ?thesis by (simp add: ite_error)
    next
      case (Inr x)
      from step.prems obtain lo hi where
        lo: "ite (cofactor f [x \<mapsto> False]) (cofactor g [x \<mapsto> False]) (cofactor h [x \<mapsto> False]) = Inr lo"
        and hi: "ite (cofactor f [x \<mapsto> True]) (cofactor g [x \<mapsto> True]) (cofactor h [x \<mapsto> True]) = Inr hi"
        and r: "r = obddnode x lo hi"
        by (auto simp: ite_general[OF False Inr] split: sum.splits)
      show ?thesis
      proof (cases "env x")
        case True
        then show ?thesis
          using step.IH[OF False Inr hi] r
          by (simp add: eval_cofactor override_single_same)
      next
        case False
        then show ?thesis
          using step.IH[OF \<open>\<not> shortcut f g h\<close> Inr lo] r
          by (simp add: eval_cofactor override_single_same)
      qed
    qed
  qed
qed

lemma above_cofactor_root:
  assumes "well_formed n" and "is_terminal n \<or> x \<le> root n"
  shows "roots_above x (cofactor n [x \<mapsto> b])"
proof (cases n)
  case (Node r lo hi)
  with assms have w: "roots_above r lo" "roots_above r hi" "x \<le> r"
    using well_formed_iff by auto
  show ?thesis
  proof (cases "x = r")
    case True
    with w Node show ?thesis by (auto intro: above_cofactor)
  next
    case False
    with w have "roots_above x n" unfolding Node by (auto intro: above_mono)
    then show ?thesis by (rule above_cofactor)
  qed
qed simp_all

lemma well_formed_root: "well_formed n \<Longrightarrow> is_terminal n \<or> 0 < root n"
  by (cases n) auto

lemma well_formed_ite:
  "well_formed f \<Longrightarrow> well_formed g \<Longrightarrow> well_formed h \<Longrightarrow>
   roots_above k f \<Longrightarrow> roots_above k g \<Longrightarrow> roots_above k h \<Longrightarrow> ite f g h = Inr r \<Longrightarrow>
   well_formed r \<and> roots_above k r"
proof (induction f g h arbitrary: r k rule: ite_induct)
  case (step f g h)
  show ?case
  proof (cases "shortcut f g h")
    case True
    with step.prems show ?thesis
      by (auto simp: ite_shortcut well_formed_neg above_neg split: if_splits)
  next
    case False
    show ?thesis
    proof (cases "split_root f g h")
      case (Inl e)
      with False step.prems show ?thesis by (simp add: ite_error)
    next
      case (Inr x)
      from step.prems(7) obtain lo hi where
        lo: "ite (cofactor f [x \<mapsto> False]) (cofactor g [x \<mapsto> False]) (cofactor h [x \<mapsto> False]) = Inr lo"
        and hi: "ite (cofactor f [x \<mapsto> True]) (cofactor g [x \<mapsto> True]) (cofactor h [x \<mapsto> True]) = Inr hi"
        and r: "r = obddnode x lo hi"
        by (auto simp: ite_general[OF False Inr] split: sum.splits)
      note sp = split_root_props[OF Inr]
      have ab: "roots_above x (cofactor n [x \<mapsto> b])" if "n \<in> {f, g, h}" for n b
      proof (rule above_cofactor_root)
        show "well_formed n" using that step.prems by auto
        show "is_terminal n \<or> x \<le> root n"
          using well_formed_root[OF \<open>well_formed n\<close>] sp(3)[OF that] by auto
      qed
      have "well_formed lo \<and> roots_above x lo"
        by (rule step.IH[OF False Inr _ _ _ _ _ _ lo])
           (use step.prems ab in \<open>auto intro: well_formed_cofactor\<close>)
      moreover have "well_formed hi \<and> roots_above x hi"
        by (rule step.IH[OF False Inr _ _ _ _ _ _ hi])
           (use step.prems ab in \<open>auto intro: well_formed_cofactor\<close>)
      moreover have "k < x" using sp(2) step.prems(4,5,6) by (auto simp: roots_above_def)
      ultimately show ?thesis unfolding r
        using sp(1) by (auto intro!: well_formed_obddnode above_obddnode intro: above_mono)
    qed
  qed
qed

section \<open>If-then-else against its specification\<close>

text \<open>
  One step of the algorithm in the words of the specification: the five
  pattern cases in order, then the split on the smallest root among the roots
  of the nodes that are not terminals, the two restrictions, and the node built
  through the node store.
\<close>

definition ite_spec :: "OBDDNode \<Rightarrow> OBDDNode \<Rightarrow> OBDDNode \<Rightarrow> error + OBDDNode" where
  "ite_spec f g h =
     (if g = BDDNODEONE \<and> h = BDDNODEZERO then Inr f
      else if g = BDDNODEZERO \<and> h = BDDNODEONE then Inr (neg f)
      else if f = BDDNODEONE then Inr g
      else if f = BDDNODEZERO then Inr h
      else if g = h then Inr g
      else
        (let x = Min (root ` {n \<in> {f, g, h}. \<not> is_terminal n})
         in case ite (cofactor f [x \<mapsto> False]) (cofactor g [x \<mapsto> False]) (cofactor h [x \<mapsto> False]) of
              Inl e \<Rightarrow> Inl e
            | Inr lo \<Rightarrow>
                (case ite (cofactor f [x \<mapsto> True]) (cofactor g [x \<mapsto> True]) (cofactor h [x \<mapsto> True]) of
                   Inl e \<Rightarrow> Inl e
                 | Inr hi \<Rightarrow> Inr (obddnode x lo hi))))"

lemma well_formed_pos_root: "well_formed n \<Longrightarrow> (0 < root n) = (\<not> is_terminal n)"
  by (cases n) auto

lemma split_root_Min:
  assumes wf: "well_formed f" "well_formed g" "well_formed h"
    and x: "split_root f g h = Inr x"
  shows "Min (root ` {n \<in> {f, g, h}. \<not> is_terminal n}) = x"
proof (rule Min_eqI)
  show "finite (root ` {n \<in> {f, g, h}. \<not> is_terminal n})" by simp
  show "x \<le> y" if "y \<in> root ` {n \<in> {f, g, h}. \<not> is_terminal n}" for y
    using that split_root_props(3)[OF x] wf well_formed_pos_root by auto
  from x have "py_min (filter (\<lambda>r. 0 < r) (map root [f, g, h])) = Inr x"
    by (simp add: split_root_def)
  from py_min_mem[OF this] have "x \<in> {r \<in> {root f, root g, root h}. 0 < r}"
    by (auto split: if_splits)
  then show "x \<in> root ` {n \<in> {f, g, h}. \<not> is_terminal n}"
    using wf well_formed_pos_root by auto
qed

lemma ite_refines_spec:
  assumes wf: "well_formed f" "well_formed g" "well_formed h"
  shows "ite f g h = ite_spec f g h"
proof (cases "shortcut f g h")
  case True
  then show ?thesis by (auto simp: ite_shortcut ite_spec_def shortcut_def)
next
  case False
  then obtain r lo hi where f: "f = Node r lo hi"
    by (cases f) (auto simp: shortcut_def)
  with wf(1) have "0 < r" by simp
  then obtain x where x: "split_root f g h = Inr x"
    by (auto simp: split_root_def f)
  from False have ns: "(g = BDDNODEONE \<and> h = BDDNODEZERO) = False"
      "(g = BDDNODEZERO \<and> h = BDDNODEONE) = False"
      "(f = BDDNODEONE) = False" "(f = BDDNODEZERO) = False" "(g = h) = False"
    by (auto simp: shortcut_def)
  show ?thesis
    unfolding ite_spec_def ite_general[OF False x]
    by (simp only: ns if_False split_root_Min[OF wf x] Let_def)
qed

text \<open>
  Claim C2. For well-formed nodes \<open>f\<close>, \<open>g\<close>, \<open>h\<close>, \<^verbatim>\<open>_ite(f, g, h)\<close> returns a node
  (it raises nothing), the node is well formed and denotes the function
  "if \<open>f\<close> then \<open>g\<close> else \<open>h\<close>", and the source takes exactly the step the
  specification describes: the shortcut cases first-match-wins, otherwise the
  Shannon expansion on the smallest root among the non-terminal nodes.
\<close>

theorem ite_computes_if_then_else:
  assumes "well_formed f" and "well_formed g" and "well_formed h"
  shows "(\<exists>r. ite f g h = Inr r \<and> well_formed r \<and>
            (\<forall>env. eval_node r env = (if eval_node f env then eval_node g env else eval_node h env))) \<and>
         ite f g h = ite_spec f g h"
proof -
  from assms(1) obtain r where r: "ite f g h = Inr r"
    using ite_defined[OF well_formed_pos] by blast
  have "well_formed r"
    using well_formed_ite[OF assms _ _ _ r] assms well_formed_pos by blast
  with r eval_ite[OF r] ite_refines_spec[OF assms] show ?thesis by simp
qed

theorem ite_computes_if_then_else_witness:
  "(\<exists>r. ite (Node 1 BDDNODEZERO BDDNODEONE) (Node 3 BDDNODEZERO BDDNODEONE) (Node 2 BDDNODEZERO BDDNODEONE) = Inr r
       \<and> well_formed r \<and>
       (\<forall>env. eval_node r env =
          (if eval_node (Node 1 BDDNODEZERO BDDNODEONE) env
           then eval_node (Node 3 BDDNODEZERO BDDNODEONE) env
           else eval_node (Node 2 BDDNODEZERO BDDNODEONE) env))) \<and>
   ite (Node 1 BDDNODEZERO BDDNODEONE) (Node 3 BDDNODEZERO BDDNODEONE) (Node 2 BDDNODEZERO BDDNODEONE) =
   ite_spec (Node 1 BDDNODEZERO BDDNODEONE) (Node 3 BDDNODEZERO BDDNODEONE) (Node 2 BDDNODEZERO BDDNODEONE) \<and>
   well_formed (Node 1 BDDNODEZERO BDDNODEONE) \<and> well_formed (Node 3 BDDNODEZERO BDDNODEONE) \<and>
   well_formed (Node 2 BDDNODEZERO BDDNODEONE)"
proof -
  have w: "well_formed (Node 1 BDDNODEZERO BDDNODEONE)" "well_formed (Node 3 BDDNODEZERO BDDNODEONE)"
    "well_formed (Node 2 BDDNODEZERO BDDNODEONE)" by simp_all
  from ite_computes_if_then_else[OF w] w show ?thesis by blast
qed

section \<open>The reduced and ordered invariant\<close>

text \<open>
  The nodes reachable from a node, and the invariant of one node: a positive
  root, two distinct children, and a root below the root of each child that
  is not a terminal.
\<close>

fun reachable :: "OBDDNode \<Rightarrow> OBDDNode set" where
  "reachable (Node r lo hi) = insert (Node r lo hi) (reachable lo \<union> reachable hi)"
| "reachable t = {t}"

fun node_invariant :: "OBDDNode \<Rightarrow> bool" where
  "node_invariant (Node r lo hi) =
     (0 < r \<and> lo \<noteq> hi \<and> (is_terminal lo \<or> r < root lo) \<and> (is_terminal hi \<or> r < root hi))"
| "node_invariant t = True"

lemma well_formed_reachable: "well_formed n = (\<forall>m \<in> reachable n. node_invariant m)"
  by (induction n) auto

text \<open>
  Claim C4. Every internal node reachable from a well-formed node has two
  distinct children and a root strictly smaller than the root of each
  non-terminal child; the node of a variable is well formed, and \<^verbatim>\<open>_ite\<close>,
  \<^verbatim>\<open>_restrict\<close> (for a point that assigns terminals) and \<^verbatim>\<open>_neg\<close> return
  well-formed nodes when given well-formed nodes.
\<close>

theorem reduced_ordered_invariant:
  "(0 < u \<longrightarrow> well_formed (obddnode u BDDNODEZERO BDDNODEONE)) \<and>
   (well_formed f \<and> well_formed g \<and> well_formed h \<longrightarrow> (\<exists>r. ite f g h = Inr r \<and> well_formed r)) \<and>
   (well_formed f \<longrightarrow> (\<exists>r c. restrict_node f (point_of a) Map.empty = Inr (r, c) \<and> well_formed r)) \<and>
   (well_formed f \<longrightarrow> well_formed (neg f)) \<and>
   (well_formed n = (\<forall>m \<in> reachable n. node_invariant m))"
proof (intro conjI impI)
  show "well_formed (obddnode u BDDNODEZERO BDDNODEONE)" if "0 < u"
    using that by (simp add: obddnode_def)
  show "\<exists>r. ite f g h = Inr r \<and> well_formed r"
    if w: "well_formed f \<and> well_formed g \<and> well_formed h"
  proof -
    from w obtain r where r: "ite f g h = Inr r"
      using ite_defined[OF well_formed_pos] by blast
    with w well_formed_ite[of f g h 0 r] well_formed_pos show ?thesis by blast
  qed
  show "\<exists>r c. restrict_node f (point_of a) Map.empty = Inr (r, c) \<and> well_formed r"
    if "well_formed f"
    using restrict_node_top[of f a] well_formed_cofactor[OF that, of a] by blast
  show "well_formed (neg f)" if "well_formed f"
    using that by (rule well_formed_neg)
  show "well_formed n = (\<forall>m \<in> reachable n. node_invariant m)"
    by (rule well_formed_reachable)
qed

theorem reduced_ordered_invariant_witness:
  "well_formed (obddnode 1 BDDNODEZERO BDDNODEONE) \<and>
   (\<exists>r. ite (Node 1 BDDNODEZERO BDDNODEONE) (Node 3 BDDNODEZERO BDDNODEONE)
          (Node 2 BDDNODEZERO BDDNODEONE) = Inr r \<and> well_formed r) \<and>
   (\<exists>r c. restrict_node (Node 1 BDDNODEZERO (Node 2 BDDNODEZERO BDDNODEONE))
            (point_of [2 \<mapsto> True]) Map.empty = Inr (r, c) \<and> well_formed r) \<and>
   well_formed (neg (Node 1 BDDNODEZERO (Node 2 BDDNODEZERO BDDNODEONE))) \<and>
   well_formed (Node 1 BDDNODEZERO (Node 2 BDDNODEZERO BDDNODEONE))"
proof -
  have w: "well_formed (Node 1 BDDNODEZERO BDDNODEONE)" "well_formed (Node 3 BDDNODEZERO BDDNODEONE)"
    "well_formed (Node 2 BDDNODEZERO BDDNODEONE)"
    "well_formed (Node 1 BDDNODEZERO (Node 2 BDDNODEZERO BDDNODEONE))" "(0::int) < 1"
    by simp_all
  from reduced_ordered_invariant[of 1 "Node 1 BDDNODEZERO BDDNODEONE"
      "Node 3 BDDNODEZERO BDDNODEONE" "Node 2 BDDNODEZERO BDDNODEONE"] w
  have a: "well_formed (obddnode 1 BDDNODEZERO BDDNODEONE)"
    "\<exists>r. ite (Node 1 BDDNODEZERO BDDNODEONE) (Node 3 BDDNODEZERO BDDNODEONE)
          (Node 2 BDDNODEZERO BDDNODEONE) = Inr r \<and> well_formed r"
    by blast+
  from reduced_ordered_invariant[of 1 "Node 1 BDDNODEZERO (Node 2 BDDNODEZERO BDDNODEONE)"
      "Node 3 BDDNODEZERO BDDNODEONE" "Node 2 BDDNODEZERO BDDNODEONE" "[2 \<mapsto> True]"] w
  have b: "\<exists>r c. restrict_node (Node 1 BDDNODEZERO (Node 2 BDDNODEZERO BDDNODEONE))
            (point_of [2 \<mapsto> True]) Map.empty = Inr (r, c) \<and> well_formed r"
    "well_formed (neg (Node 1 BDDNODEZERO (Node 2 BDDNODEZERO BDDNODEONE)))"
    by blast+
  from a b w show ?thesis by blast
qed

section \<open>Algebraic laws of the operators\<close>

text \<open>
  A well-formed node is determined by its function, so an equation between
  results of \<^verbatim>\<open>_ite\<close> follows from the equation between the functions.
\<close>

lemma canonical:
  "well_formed s \<Longrightarrow> well_formed t \<Longrightarrow> (\<And>env. eval_node s env = eval_node t env) \<Longrightarrow> s = t"
  using canonical_aux by blast

lemma neg_neg: "well_formed n \<Longrightarrow> neg (neg n) = n"
  by (rule canonical) (simp_all add: well_formed_neg)

lemma ite_well_formed_result:
  assumes "well_formed f" "well_formed g" "well_formed h"
  shows "\<exists>r. ite f g h = Inr r \<and> well_formed r \<and>
    (\<forall>env. eval_node r env = (if eval_node f env then eval_node g env else eval_node h env))"
proof -
  from assms(1) obtain r where r: "ite f g h = Inr r"
    using ite_defined[OF well_formed_pos] by blast
  have "well_formed r"
    using well_formed_ite[OF assms _ _ _ r] assms well_formed_pos by blast
  with r eval_ite[OF r] show ?thesis by simp
qed

lemma ite_eqI:
  assumes "well_formed f" "well_formed g" "well_formed h" "well_formed t"
    and "\<And>env. eval_node t env = (if eval_node f env then eval_node g env else eval_node h env)"
  shows "ite f g h = Inr t"
proof -
  from ite_well_formed_result[OF assms(1-3)] obtain r where r: "ite f g h = Inr r" "well_formed r"
    "\<forall>env. eval_node r env = (if eval_node f env then eval_node g env else eval_node h env)"
    by blast
  have "r = t" by (rule canonical) (use r assms in auto)
  with r show ?thesis by simp
qed

lemma box_diagram [simp]: "box (PyDiagram d) = Inr d"
  by (simp add: box_def)

text \<open>
  Claim C6. For diagrams \<open>f\<close> and \<open>g\<close> with well-formed nodes (the diagrams the
  public operations build): \<open>NOT (NOT f)\<close> is \<open>f\<close>; \<open>NOT (OR f g)\<close> is
  \<open>AND (NOT f) (NOT g)\<close>; \<open>XOR f f\<close> is the constant false; \<open>OR f (NOT f)\<close> is the
  constant true; \<open>AND f TRUE\<close> is \<open>f\<close>; \<open>AND f FALSE\<close> is the constant false. Each
  equation is between diagrams, that is between the nodes they wrap.
\<close>

theorem algebraic_laws:
  assumes "well_formed (node f)" and "well_formed (node g)"
  shows "obdd_invert (obdd_invert f) = f \<and>
    (\<exists>d e. obdd_or f (PyDiagram g) = Inr d \<and>
            obdd_and (obdd_invert f) (PyDiagram (obdd_invert g)) = Inr e \<and>
            obdd_invert d = e) \<and>
    obdd_xor f (PyDiagram f) = Inr BDDZERO \<and>
    obdd_or f (PyDiagram (obdd_invert f)) = Inr BDDONE \<and>
    obdd_and f (PyDiagram BDDONE) = Inr f \<and>
    obdd_and f (PyDiagram BDDZERO) = Inr BDDZERO"
proof (intro conjI)
  note wf = assms well_formed_neg[OF assms(1)] well_formed_neg[OF assms(2)]
  show "obdd_invert (obdd_invert f) = f"
    using neg_neg[OF assms(1)] by (cases f) (simp add: obdd_invert_def obdd_def)
  show "\<exists>d e. obdd_or f (PyDiagram g) = Inr d \<and>
            obdd_and (obdd_invert f) (PyDiagram (obdd_invert g)) = Inr e \<and>
            obdd_invert d = e"
  proof -
    obtain r where r: "ite (node f) BDDNODEONE (node g) = Inr r" "well_formed r"
      "\<forall>env. eval_node r env = (if eval_node (node f) env then eval_node BDDNODEONE env else eval_node (node g) env)"
      using ite_well_formed_result[of "node f" BDDNODEONE "node g"] wf by auto
    have "ite (neg (node f)) (neg (node g)) BDDNODEZERO = Inr (neg r)"
      by (rule ite_eqI) (use wf r in \<open>auto simp: well_formed_neg\<close>)
    with r(1) show ?thesis
      by (simp add: obdd_or_def obdd_and_def obdd_invert_def obdd_def)
  qed
  have "ite (node f) (neg (node f)) (node f) = Inr BDDNODEZERO"
    by (rule ite_eqI) (use wf in auto)
  then show "obdd_xor f (PyDiagram f) = Inr BDDZERO"
    by (simp add: obdd_xor_def obdd_def BDDZERO_def)
  have "ite (node f) BDDNODEONE (neg (node f)) = Inr BDDNODEONE"
    by (rule ite_eqI) (use wf in auto)
  then show "obdd_or f (PyDiagram (obdd_invert f)) = Inr BDDONE"
    by (simp add: obdd_or_def obdd_invert_def obdd_def BDDONE_def)
  have "ite (node f) BDDNODEONE BDDNODEZERO = Inr (node f)"
    by (simp add: ite_shortcut shortcut_def)
  then show "obdd_and f (PyDiagram BDDONE) = Inr f"
    by (cases f) (simp add: obdd_and_def obdd_def BDDONE_def BDDZERO_def)
  have "ite (node f) BDDNODEZERO BDDNODEZERO = Inr BDDNODEZERO"
    by (simp add: ite_shortcut shortcut_def)
  then show "obdd_and f (PyDiagram BDDZERO) = Inr BDDZERO"
    by (simp add: obdd_and_def obdd_def BDDZERO_def)
qed

theorem algebraic_laws_witness:
  "obdd_invert (obdd_invert (OBDD (Node 1 BDDNODEZERO BDDNODEONE))) = OBDD (Node 1 BDDNODEZERO BDDNODEONE) \<and>
   (\<exists>d e. obdd_or (OBDD (Node 1 BDDNODEZERO BDDNODEONE)) (PyDiagram (OBDD (Node 2 BDDNODEZERO BDDNODEONE))) = Inr d \<and>
      obdd_and (obdd_invert (OBDD (Node 1 BDDNODEZERO BDDNODEONE)))
        (PyDiagram (obdd_invert (OBDD (Node 2 BDDNODEZERO BDDNODEONE)))) = Inr e \<and>
      obdd_invert d = e) \<and>
   obdd_xor (OBDD (Node 1 BDDNODEZERO BDDNODEONE)) (PyDiagram (OBDD (Node 1 BDDNODEZERO BDDNODEONE))) = Inr BDDZERO \<and>
   obdd_or (OBDD (Node 1 BDDNODEZERO BDDNODEONE))
     (PyDiagram (obdd_invert (OBDD (Node 1 BDDNODEZERO BDDNODEONE)))) = Inr BDDONE \<and>
   obdd_and (OBDD (Node 1 BDDNODEZERO BDDNODEONE)) (PyDiagram BDDONE) = Inr (OBDD (Node 1 BDDNODEZERO BDDNODEONE)) \<and>
   obdd_and (OBDD (Node 1 BDDNODEZERO BDDNODEONE)) (PyDiagram BDDZERO) = Inr BDDZERO \<and>
   well_formed (node (OBDD (Node 1 BDDNODEZERO BDDNODEONE))) \<and>
   well_formed (node (OBDD (Node 2 BDDNODEZERO BDDNODEONE)))"
proof -
  have w: "well_formed (node (OBDD (Node 1 BDDNODEZERO BDDNODEONE)))"
    "well_formed (node (OBDD (Node 2 BDDNODEZERO BDDNODEONE)))" by simp_all
  from algebraic_laws[OF w] w show ?thesis by blast
qed

section \<open>Constructions through the public operations\<close>

text \<open>
  A construction is a term over the public operations: a variable (by its
  uniqid; \<^verbatim>\<open>obddvar\<close> returns the diagram of the node \<open>(uniqid, 0, 1)\<close>), a
  constant operand (boxed from 0 or 1), the operators \<^verbatim>\<open>~\<close>, \<^verbatim>\<open>|\<close>, \<^verbatim>\<open>&\<close>, \<^verbatim>\<open>^\<close>,
  \<^verbatim>\<open>>>\<close>, and \<^verbatim>\<open>restrict\<close> with a point from variables to 0 or 1. \<open>build\<close> runs the
  construction through the model of the source; \<open>denotation\<close> is the Boolean
  function the construction stands for.
\<close>

definition variable_diagram :: "int \<Rightarrow> OBDD" where
  "variable_diagram u = OBDD (obddnode u BDDNODEZERO BDDNODEONE)"

definition py_bit :: "bool \<Rightarrow> pyobj" where
  "py_bit b = PyInt (if b then 1 else 0)"

datatype construction =
    Var int
  | Const bool
  | Not construction
  | Or construction construction
  | And construction construction
  | Xor construction construction
  | Implies construction construction
  | Restrict construction "(int \<times> bool) list"

definition binary ::
  "(OBDD \<Rightarrow> pyobj \<Rightarrow> error + OBDD) \<Rightarrow> error + OBDD \<Rightarrow> error + OBDD \<Rightarrow> error + OBDD" where
  "binary op l r =
     (case l of
        Inl e \<Rightarrow> Inl e
      | Inr d1 \<Rightarrow> (case r of Inl e \<Rightarrow> Inl e | Inr d2 \<Rightarrow> op d1 (PyDiagram d2)))"

fun build :: "construction \<Rightarrow> error + OBDD" where
  "build (Var u) = Inr (variable_diagram u)"
| "build (Const b) = box (py_bit b)"
| "build (Not c) = map_sum id obdd_invert (build c)"
| "build (Or c1 c2) = binary obdd_or (build c1) (build c2)"
| "build (And c1 c2) = binary obdd_and (build c1) (build c2)"
| "build (Xor c1 c2) = binary obdd_xor (build c1) (build c2)"
| "build (Implies c1 c2) = binary obdd_rshift (build c1) (build c2)"
| "build (Restrict c ps) =
     (case build c of
        Inl e \<Rightarrow> Inl e
      | Inr d \<Rightarrow> restrict d (map (\<lambda>(u, b). (variable_diagram u, py_bit b)) ps))"

definition assignment :: "(int \<times> bool) list \<Rightarrow> (int \<rightharpoonup> bool) \<Rightarrow> (int \<rightharpoonup> bool)" where
  "assignment ps a = fold (\<lambda>(u, b) m. m(u \<mapsto> b)) ps a"

fun denotation :: "construction \<Rightarrow> (int \<Rightarrow> bool) \<Rightarrow> bool" where
  "denotation (Var u) env = env u"
| "denotation (Const b) env = b"
| "denotation (Not c) env = (\<not> denotation c env)"
| "denotation (Or c1 c2) env = (denotation c1 env \<or> denotation c2 env)"
| "denotation (And c1 c2) env = (denotation c1 env \<and> denotation c2 env)"
| "denotation (Xor c1 c2) env = (denotation c1 env \<noteq> denotation c2 env)"
| "denotation (Implies c1 c2) env = (denotation c1 env \<longrightarrow> denotation c2 env)"
| "denotation (Restrict c ps) env = denotation c (override (assignment ps Map.empty) env)"

fun uniqids_positive :: "construction \<Rightarrow> bool" where
  "uniqids_positive (Var u) = (0 < u)"
| "uniqids_positive (Const b) = True"
| "uniqids_positive (Not c) = uniqids_positive c"
| "uniqids_positive (Or c1 c2) = (uniqids_positive c1 \<and> uniqids_positive c2)"
| "uniqids_positive (And c1 c2) = (uniqids_positive c1 \<and> uniqids_positive c2)"
| "uniqids_positive (Xor c1 c2) = (uniqids_positive c1 \<and> uniqids_positive c2)"
| "uniqids_positive (Implies c1 c2) = (uniqids_positive c1 \<and> uniqids_positive c2)"
| "uniqids_positive (Restrict c ps) = uniqids_positive c"

lemma box_py_bit: "box (py_bit b) = Inr (OBDD (terminal_of b))"
  by (simp add: box_def py_bit_def py_eq_int_def terminal_of_def BDDZERO_def BDDONE_def)

lemma root_variable_diagram [simp]: "root (node (variable_diagram u)) = u"
  by (simp add: variable_diagram_def obddnode_def)

lemma point_of_upd: "(point_of a)(u \<mapsto> terminal_of b) = point_of (a(u \<mapsto> b))"
  by (auto simp: point_of_def)

lemma point_of_empty: "Map.empty = point_of Map.empty"
  by (auto simp: point_of_def)

lemma make_npoint_points:
  "make_npoint (map (\<lambda>(u, b). (variable_diagram u, py_bit b)) ps) (point_of a) =
   Inr (point_of (assignment ps a))"
  by (induction ps arbitrary: a)
     (auto simp: assignment_def box_py_bit point_of_upd)

lemma restrict_points:
  "restrict d (map (\<lambda>(u, b). (variable_diagram u, py_bit b)) ps) =
   Inr (OBDD (cofactor (node d) (assignment ps Map.empty)))"
proof -
  obtain c where "restrict_node (node d) (point_of (assignment ps Map.empty)) Map.empty =
      Inr (cofactor (node d) (assignment ps Map.empty), c)"
    using restrict_node_top by blast
  moreover have "make_npoint (map (\<lambda>(u, b). (variable_diagram u, py_bit b)) ps) Map.empty =
      Inr (point_of (assignment ps Map.empty))"
    using make_npoint_points[of ps Map.empty] by (simp add: point_of_empty[symmetric])
  ultimately show ?thesis by (simp add: restrict_def obdd_def)
qed

definition represents :: "OBDD \<Rightarrow> construction \<Rightarrow> bool" where
  "represents d c = (well_formed (node d) \<and> (\<forall>env. eval_node (node d) env = denotation c env))"

lemma binary_represents:
  assumes l: "l = Inr d1" "well_formed (node d1)" and r: "r = Inr d2" "well_formed (node d2)"
    and op: "\<And>n. op d1 (PyDiagram d2) = map_sum id obdd (ite (F (node d1)) (G (node d2)) (H (node d1) (node d2)))"
    and wf: "well_formed (F (node d1))" "well_formed (G (node d2))" "well_formed (H (node d1) (node d2))"
  shows "\<exists>d. binary op l r = Inr d \<and> well_formed (node d) \<and>
     (\<forall>env. eval_node (node d) env =
        (if eval_node (F (node d1)) env then eval_node (G (node d2)) env
         else eval_node (H (node d1) (node d2)) env))"
proof -
  from ite_well_formed_result[OF wf] obtain n where
    "ite (F (node d1)) (G (node d2)) (H (node d1) (node d2)) = Inr n" "well_formed n"
    "\<forall>env. eval_node n env = (if eval_node (F (node d1)) env then eval_node (G (node d2)) env
         else eval_node (H (node d1) (node d2)) env)"
    by blast
  then show ?thesis using l r op by (simp add: binary_def obdd_def)
qed

lemma build_represents:
  "uniqids_positive c \<Longrightarrow> \<exists>d. build c = Inr d \<and> represents d c"
proof (induction c)
  case (Var u)
  then show ?case by (simp add: represents_def variable_diagram_def obddnode_def)
next
  case (Const b)
  show ?case by (cases b) (auto simp: box_py_bit represents_def terminal_of_def)
next
  case (Not c)
  then obtain d where "build c = Inr d" "represents d c" by auto
  then show ?case
    by (simp add: represents_def obdd_invert_def obdd_def well_formed_neg)
next
  case (Or c1 c2)
  then obtain d1 d2 where d: "build c1 = Inr d1" "represents d1 c1" "build c2 = Inr d2" "represents d2 c2"
    by auto
  from binary_represents[of "build c1" d1 "build c2" d2 obdd_or "\<lambda>n. n" "\<lambda>n. BDDNODEONE" "\<lambda>n m. m"] d
  show ?case by (auto simp: represents_def obdd_or_def)
next
  case (And c1 c2)
  then obtain d1 d2 where d: "build c1 = Inr d1" "represents d1 c1" "build c2 = Inr d2" "represents d2 c2"
    by auto
  from binary_represents[of "build c1" d1 "build c2" d2 obdd_and "\<lambda>n. n" "\<lambda>n. n" "\<lambda>n m. BDDNODEZERO"] d
  show ?case by (auto simp: represents_def obdd_and_def)
next
  case (Xor c1 c2)
  then obtain d1 d2 where d: "build c1 = Inr d1" "represents d1 c1" "build c2 = Inr d2" "represents d2 c2"
    by auto
  from binary_represents[of "build c1" d1 "build c2" d2 obdd_xor "\<lambda>n. n" "\<lambda>n. neg n" "\<lambda>n m. m"] d
  show ?case by (auto simp: represents_def obdd_xor_def well_formed_neg)
next
  case (Implies c1 c2)
  then obtain d1 d2 where d: "build c1 = Inr d1" "represents d1 c1" "build c2 = Inr d2" "represents d2 c2"
    by auto
  from binary_represents[of "build c1" d1 "build c2" d2 obdd_rshift "\<lambda>n. neg n" "\<lambda>n. BDDNODEONE" "\<lambda>n m. m"] d
  show ?case by (auto simp: represents_def obdd_rshift_def well_formed_neg)
next
  case (Restrict c ps)
  then obtain d where "build c = Inr d" "represents d c" by auto
  then show ?case
    by (simp add: restrict_points represents_def well_formed_cofactor eval_cofactor)
qed

section \<open>Coercion of operands\<close>

fun is_diagram :: "pyobj \<Rightarrow> bool" where
  "is_diagram (PyDiagram d) = True"
| "is_diagram _ = False"

text \<open>
  Claim C10. \<^verbatim>\<open>box(obj)\<close> raises \<^verbatim>\<open>TypeError\<close> exactly for the objects that are not
  a diagram and not equal to 0, 1, \<^verbatim>\<open>"0"\<close> or \<^verbatim>\<open>"1"\<close> (the fallback branch calls the
  module \<^verbatim>\<open>boolean\<close>); a boolean is equal to 0 or 1 and is boxed to the constant;
  and \<^verbatim>\<open>bool()\<close> of the constants \<^verbatim>\<open>BDDZERO\<close> and \<^verbatim>\<open>BDDONE\<close> raises \<^verbatim>\<open>TypeError\<close>.
\<close>

theorem box_fallback_raises:
  "(box obj = Inl TypeError) =
     (\<not> is_diagram obj \<and> \<not> py_eq_int obj 0 \<and> \<not> py_eq_int obj 1 \<and>
      \<not> py_eq_str obj ''0'' \<and> \<not> py_eq_str obj ''1'') \<and>
   box (PyBool b) = Inr (if b then BDDONE else BDDZERO) \<and>
   obdd_bool BDDZERO = Inl TypeError \<and>
   obdd_bool BDDONE = Inl TypeError"
  by (cases obj)
     (auto simp: box_def call_boolean_def obdd_bool_def BDDZERO_def BDDONE_def py_eq_int_def)

section \<open>The support of a diagram\<close>

text \<open>
  The session in which \<^verbatim>\<open>obddvar\<close> is called for \<open>a\<close>, \<open>b\<close> and \<open>c\<close>, in this
  order, from the initial module state.
\<close>

definition abc_session :: "registry \<times> obddvars" where
  "abc_session =
     snd (obddvar (PyStr ''c'') PyNone
       (snd (obddvar (PyStr ''b'') PyNone
         (snd (obddvar (PyStr ''a'') PyNone (initial_registry, Map.empty))))))"

text \<open>
  Claim C3, at the input where the source departs from it. The diagram
  \<^verbatim>\<open>a & c | ~a & b\<close> has the node \<open>(a, b, c)\<close>: its \<open>lo\<close> child is the node of \<open>b\<close> and
  its \<open>hi\<close> child the node of \<open>c\<close>. The post-order visits \<open>b\<close>, \<open>c\<close>, \<open>a\<close>, and
  \<^verbatim>\<open>inputs\<close> returns the reverse, the variables with uniqids 1, 3, 2: the support
  is not in ascending order of uniqid.
\<close>

theorem inputs_not_in_variable_order:
  "build (Or (And (Var 1) (Var 3)) (And (Not (Var 1)) (Var 2))) =
     Inr (OBDD (Node 1 (Node 2 BDDNODEZERO BDDNODEONE) (Node 3 BDDNODEZERO BDDNODEONE))) \<and>
   map_sum id (map uniqid)
     (inputs (snd abc_session)
        (OBDD (Node 1 (Node 2 BDDNODEZERO BDDNODEONE) (Node 3 BDDNODEZERO BDDNODEONE)))) =
   Inr [1, 3, 2]"
proof
  show "build (Or (And (Var 1) (Var 3)) (And (Not (Var 1)) (Var 2))) =
     Inr (OBDD (Node 1 (Node 2 BDDNODEZERO BDDNODEONE) (Node 3 BDDNODEZERO BDDNODEONE)))"
    by code_simp
  show "map_sum id (map uniqid)
     (inputs (snd abc_session)
        (OBDD (Node 1 (Node 2 BDDNODEZERO BDDNODEONE) (Node 3 BDDNODEZERO BDDNODEONE)))) =
   Inr [1, 3, 2]"
    by (simp add: abc_session_def obddvar_def var_def identity_of_def initial_registry_def
        Variable_init_def OBDDVariable_init_def inputs_def dfs_postorder_def obddnode_def Let_def
        Variable.extend_def)
qed

section \<open>Errors of variable resolution\<close>

text \<open>
  The malformed inputs in the words of the specification: the name or the
  index argument has the wrong type, the sequence of names is empty, a name is
  not a string, an index is negative, or an index is not an integer. A string
  is the sequence of one name, an integer the sequence of one index, \<^verbatim>\<open>None\<close>
  the empty sequence of indices.
\<close>

fun is_str :: "pyobj \<Rightarrow> bool" where
  "is_str (PyStr s) = True"
| "is_str _ = False"

fun is_tuple :: "pyobj \<Rightarrow> bool" where
  "is_tuple (PyTuple xs) = True"
| "is_tuple _ = False"

fun names_of :: "pyobj \<Rightarrow> pyobj list" where
  "names_of (PyTuple xs) = xs"
| "names_of x = [x]"

fun indices_of :: "pyobj \<Rightarrow> pyobj list" where
  "indices_of PyNone = []"
| "indices_of (PyTuple xs) = xs"
| "indices_of x = [x]"

definition negative_index :: "pyobj \<Rightarrow> bool" where
  "negative_index x = (case int_value x of Some i \<Rightarrow> i < 0 | None \<Rightarrow> False)"

definition not_an_int :: "pyobj \<Rightarrow> bool" where
  "not_an_int x = (int_value x = None)"

definition wrong_name_type :: "pyobj \<Rightarrow> bool" where
  "wrong_name_type name = (\<not> is_str name \<and> \<not> is_tuple name)"

definition wrong_index_type :: "pyobj \<Rightarrow> bool" where
  "wrong_index_type index = (index \<noteq> PyNone \<and> not_an_int index \<and> \<not> is_tuple index)"

definition invalid_identifier :: "pyobj \<Rightarrow> pyobj \<Rightarrow> bool" where
  "invalid_identifier name index =
     (wrong_name_type name \<or> wrong_index_type index \<or>
      names_of name = [] \<or>
      (\<exists>n \<in> set (names_of name). \<not> is_str n) \<or>
      (\<exists>i \<in> set (indices_of index). negative_index i) \<or>
      (\<exists>i \<in> set (indices_of index). not_an_int i))"

lemma invalid_identifier_core:
  "invalid_identifier name index =
     (names_of name = [] \<or>
      (\<exists>n \<in> set (names_of name). \<not> is_str n) \<or>
      (\<exists>i \<in> set (indices_of index). negative_index i) \<or>
      (\<exists>i \<in> set (indices_of index). not_an_int i))"
proof -
  have "wrong_name_type name \<Longrightarrow> \<exists>n \<in> set (names_of name). \<not> is_str n"
    by (cases name) (auto simp: wrong_name_type_def)
  moreover have "wrong_index_type index \<Longrightarrow> \<exists>i \<in> set (indices_of index). not_an_int i"
    by (cases index) (auto simp: wrong_index_type_def)
  ultimately show ?thesis unfolding invalid_identifier_def by blast
qed

lemma isl_check_names: "isl (check_names xs) = (\<exists>n \<in> set xs. \<not> is_str n)"
proof (induction xs)
  case (Cons x xs)
  then show ?case by (cases x) (auto split: sum.splits)
qed simp

lemma isl_check_indices:
  "isl (check_indices ys) = (\<exists>i \<in> set ys. negative_index i \<or> not_an_int i)"
proof (induction ys)
  case (Cons y ys)
  then show ?case
    by (cases "int_value y") (auto simp: negative_index_def not_an_int_def split: sum.splits)
qed simp

lemma isl_identity_of: "isl (identity_of name index) = invalid_identifier name index"
proof -
  have n: "isl (as_names name) \<or> (\<exists>xs. as_names name = Inr xs \<and> xs = names_of name)"
    by (cases name) auto
  have i: "(isl (as_indices index) \<and> (\<exists>i \<in> set (indices_of index). not_an_int i)) \<or>
           (\<exists>ys. as_indices index = Inr ys \<and> ys = indices_of index)"
    by (cases index) (auto simp: not_an_int_def)
  have n': "isl (as_names name) \<Longrightarrow> \<exists>n \<in> set (names_of name). \<not> is_str n"
    by (cases name) auto
  show ?thesis
  proof (cases "as_names name")
    case (Inl e)
    with n'[of] show ?thesis by (auto simp: identity_of_def invalid_identifier_core)
  next
    case (Inr xs)
    with n have xs: "xs = names_of name" by auto
    show ?thesis
    proof (cases "xs = [] \<or> isl (check_names xs)")
      case True
      then show ?thesis using Inr xs isl_check_names[of xs]
        by (auto simp: identity_of_def invalid_identifier_core split: sum.splits)
    next
      case False
      then obtain ns where ns: "check_names xs = Inr ns" "xs \<noteq> []"
        by (cases "check_names xs") auto
      from False have ok: "\<not> (\<exists>n \<in> set (names_of name). \<not> is_str n)" "names_of name \<noteq> []"
        using isl_check_names[of xs] xs by auto
      show ?thesis
      proof (cases "as_indices index")
        case (Inl e)
        with i show ?thesis using Inr ns
          by (auto simp: identity_of_def invalid_identifier_core)
      next
        case iInr: (Inr ys)
        with i have ys: "ys = indices_of index" by auto
        show ?thesis using Inr ns iInr ok isl_check_indices[of ys] ys
          by (auto simp: identity_of_def invalid_identifier_core split: sum.splits)
      qed
    qed
  qed
qed

text \<open>
  Claim C7. \<^verbatim>\<open>var(name, index)\<close> raises exactly when the input is malformed (wrong
  type of an argument or of an element, empty names, negative index); otherwise
  it returns a \<^verbatim>\<open>Variable\<close>. When it raises, the error is \<^verbatim>\<open>TypeError\<close> or
  \<^verbatim>\<open>ValueError\<close> and the registry is the one it was called with.
\<close>

theorem var_raises_iff_invalid:
  "isl (fst (var name index reg)) = invalid_identifier name index \<and>
   (isl (fst (var name index reg)) \<longrightarrow>
      snd (var name index reg) = reg \<and>
      fst (var name index reg) \<in> {Inl TypeError, Inl ValueError})"
proof -
  have err: "identity_of name index = Inl e \<Longrightarrow> e = TypeError \<or> e = ValueError" for e
  proof -
    have a: "as_names name = Inl e \<Longrightarrow> e = TypeError" for e by (cases name) auto
    have b: "check_names xs = Inl e \<Longrightarrow> e = TypeError" for xs e
    proof (induction xs)
      case (Cons x xs) then show ?case by (cases x) (auto split: sum.splits)
    qed simp
    have c: "as_indices index = Inl e \<Longrightarrow> e = TypeError" for e by (cases index) auto
    have d: "check_indices ys = Inl e \<Longrightarrow> e = TypeError \<or> e = ValueError" for ys e
      by (induction ys) (auto split: sum.splits option.splits if_splits)
    show "identity_of name index = Inl e \<Longrightarrow> e = TypeError \<or> e = ValueError"
      using a b c d unfolding identity_of_def
      by (auto split: sum.splits if_splits)
  qed
  have "isl (fst (var name index reg)) = isl (identity_of name index)"
    by (auto simp: var_def Let_def split: sum.splits option.splits prod.splits)
  moreover have "isl (identity_of name index) \<Longrightarrow>
      snd (var name index reg) = reg \<and> fst (var name index reg) \<in> {Inl TypeError, Inl ValueError}"
    using err by (cases "identity_of name index") (auto simp: var_def)
  ultimately show ?thesis using isl_identity_of by simp
qed

theorem var_raises_iff_invalid_witness:
  "isl (fst (var (PyTuple []) PyNone initial_registry)) = invalid_identifier (PyTuple []) PyNone \<and>
   snd (var (PyTuple []) PyNone initial_registry) = initial_registry \<and>
   fst (var (PyTuple []) PyNone initial_registry) = Inl ValueError \<and>
   isl (fst (var (PyTuple []) PyNone initial_registry))"
proof -
  have e: "fst (var (PyTuple []) PyNone initial_registry) = Inl ValueError"
    by (simp add: var_def identity_of_def)
  then have "isl (fst (var (PyTuple []) PyNone initial_registry))" by simp
  with var_raises_iff_invalid[of "PyTuple []" PyNone initial_registry] e
  show ?thesis by simp
qed

section \<open>Restriction is idempotent\<close>

text \<open>
  A node is reduced when no internal node below it has two equal children.
  Every result of \<^verbatim>\<open>_restrict\<close> is reduced, whatever the argument, because each
  node of the result comes out of \<^verbatim>\<open>_obddnode\<close>.
\<close>

fun reduced :: "OBDDNode \<Rightarrow> bool" where
  "reduced (Node r lo hi) = (lo \<noteq> hi \<and> reduced lo \<and> reduced hi)"
| "reduced t = True"

lemma reduced_obddnode: "reduced lo \<Longrightarrow> reduced hi \<Longrightarrow> reduced (obddnode r lo hi)"
  by (simp add: obddnode_def)

lemma reduced_cofactor: "reduced (cofactor n a)"
  by (induction n) (auto intro: reduced_obddnode split: option.splits)

lemma cofactor_id: "reduced n \<Longrightarrow> (\<forall>v \<in> vars n. a v = None) \<Longrightarrow> cofactor n a = n"
  by (induction n) (auto simp: obddnode_def)

lemma dfs_postorder_node_reachable:
  "set (fst (dfs_postorder_node n visited)) \<subseteq> reachable n"
proof (induction n arbitrary: visited)
  case (Node r lo hi)
  obtain ys1 v1 where 1: "dfs_postorder_node lo visited = (ys1, v1)" by (cases "dfs_postorder_node lo visited")
  obtain ys2 v2 where 2: "dfs_postorder_node hi v1 = (ys2, v2)" by (cases "dfs_postorder_node hi v1")
  from Node.IH(1)[of visited] 1 have "set ys1 \<subseteq> reachable lo" by simp
  moreover from Node.IH(2)[of v1] 2 have "set ys2 \<subseteq> reachable hi" by simp
  ultimately show ?case using 1 2 by auto
qed auto

lemma reachable_root_vars: "m \<in> reachable n \<Longrightarrow> 0 < root m \<Longrightarrow> root m \<in> vars n"
  by (induction n) auto

lemma collect_inputs_set:
  "collect_inputs VARS ns acc = Inr vs \<Longrightarrow>
   set vs \<subseteq> set acc \<union> {w. \<exists>n \<in> set ns. 0 < root n \<and> VARS (root n) = Some w}"
proof (induction ns arbitrary: acc)
  case (Cons n ns)
  show ?case
  proof (cases "0 < root n")
    case False
    with Cons.prems have "collect_inputs VARS ns acc = Inr vs" by simp
    from Cons.IH[OF this] show ?thesis by auto
  next
    case True
    with Cons.prems obtain v where v: "VARS (root n) = Some v"
      and c: "collect_inputs VARS ns (if v \<notin> set acc then acc @ [v] else acc) = Inr vs"
      by (cases "VARS (root n)") auto
    from Cons.IH[OF c] v True show ?thesis by (auto split: if_splits)
  qed
qed simp

lemma inputs_registered:
  assumes "inputs VARS d = Inr vs" and "w \<in> set vs"
  shows "\<exists>u \<in> vars (node d). VARS u = Some w"
proof -
  from assms(1) obtain vs' where c: "collect_inputs VARS (dfs_postorder d) [] = Inr vs'" and "vs = rev vs'"
    by (cases "collect_inputs VARS (dfs_postorder d) []") (auto simp: inputs_def)
  with assms(2) collect_inputs_set[OF c] obtain n where
    n: "n \<in> set (dfs_postorder d)" "0 < root n" "VARS (root n) = Some w" by auto
  from n(1) have "n \<in> reachable (node d)"
    using dfs_postorder_node_reachable[of "node d" "{}"] by (auto simp: dfs_postorder_def)
  from this n(2) have "root n \<in> vars (node d)" by (rule reachable_root_vars)
  with n(3) show ?thesis by blast
qed

lemma box_one: "box (PyInt 1) = Inr BDDONE"
  by (simp add: box_def py_eq_int_def)

lemma restrict_single:
  assumes "box val = Inr (OBDD (terminal_of b))"
  shows "restrict f [(x, val)] = Inr (OBDD (cofactor (node f) [root (node x) \<mapsto> b]))"
proof -
  obtain c where "restrict_node (node f) (point_of [root (node x) \<mapsto> b]) Map.empty =
      Inr (cofactor (node f) [root (node x) \<mapsto> b], c)"
    using restrict_node_top by blast
  then show ?thesis using assms
    by (simp add: restrict_def obdd_def point_of_single[symmetric])
qed

text \<open>
  Claim C5. For every diagram \<open>f\<close> and every variable \<open>x\<close> (in the support of \<open>f\<close>
  or not): \<^verbatim>\<open>f.restrict({x: 1})\<close> returns a diagram \<open>d\<close>; restricting \<open>d\<close> again for
  \<open>x\<close>, to any value that boxes to a constant, returns \<open>d\<close>; the root of \<open>x\<close> does
  not occur in \<open>d\<close>, and every variable \<^verbatim>\<open>inputs\<close> lists for \<open>d\<close> is registered
  under a root of \<open>d\<close> other than the root of \<open>x\<close>.
\<close>

theorem restrict_idempotent:
  assumes "box val = Inr BDDZERO \<or> box val = Inr BDDONE"
  shows "\<exists>d. restrict f [(x, PyInt 1)] = Inr d \<and>
              restrict d [(x, val)] = Inr d \<and>
              root (node x) \<notin> vars (node d) \<and>
              (\<forall>VARS vs. inputs VARS d = Inr vs \<longrightarrow>
                 (\<forall>w \<in> set vs. \<exists>u \<in> vars (node d). u \<noteq> root (node x) \<and> VARS u = Some w))"
proof -
  let ?rx = "root (node x)"
  let ?n = "cofactor (node f) [?rx \<mapsto> True]"
  have 1: "restrict f [(x, PyInt 1)] = Inr (OBDD ?n)"
    by (rule restrict_single) (simp add: box_one BDDONE_def terminal_of_def)
  have out: "?rx \<notin> vars ?n" using vars_cofactor_mem[of ?rx "node f" "[?rx \<mapsto> True]"] by auto
  from assms have "box val = Inr (OBDD (terminal_of False)) \<or> box val = Inr (OBDD (terminal_of True))"
    by (simp add: BDDZERO_def BDDONE_def terminal_of_def)
  then obtain b where b: "box val = Inr (OBDD (terminal_of b))" by blast
  have "cofactor ?n [?rx \<mapsto> b] = ?n"
    by (rule cofactor_id) (use out reduced_cofactor in auto)
  with restrict_single[OF b, of "OBDD ?n" x] have 2: "restrict (OBDD ?n) [(x, val)] = Inr (OBDD ?n)"
    by simp
  have 3: "\<forall>VARS vs. inputs VARS (OBDD ?n) = Inr vs \<longrightarrow>
      (\<forall>w \<in> set vs. \<exists>u \<in> vars (node (OBDD ?n)). u \<noteq> ?rx \<and> VARS u = Some w)"
  proof (intro allI impI ballI)
    fix VARS vs w assume "inputs VARS (OBDD ?n) = Inr vs" "w \<in> set vs"
    from inputs_registered[OF this] obtain u where "u \<in> vars ?n" "VARS u = Some w" by auto
    moreover from this out have "u \<noteq> ?rx" by blast
    ultimately show "\<exists>u \<in> vars (node (OBDD ?n)). u \<noteq> ?rx \<and> VARS u = Some w"
      by (intro bexI[of _ u]) simp_all
  qed
  from 1 2 3 out show ?thesis by auto
qed

theorem restrict_idempotent_witness:
  "(\<exists>d. restrict (OBDD (Node 1 (Node 2 BDDNODEZERO BDDNODEONE) BDDNODEONE))
          [(OBDD (Node 1 BDDNODEZERO BDDNODEONE), PyInt 1)] = Inr d \<and>
        restrict d [(OBDD (Node 1 BDDNODEZERO BDDNODEONE), PyInt 0)] = Inr d \<and>
        root (node (OBDD (Node 1 BDDNODEZERO BDDNODEONE))) \<notin> vars (node d)) \<and>
   box (PyInt 0) = Inr BDDZERO"
proof -
  have b: "box (PyInt 0) = Inr BDDZERO" by (simp add: box_def py_eq_int_def)
  then have "box (PyInt 0) = Inr BDDZERO \<or> box (PyInt 0) = Inr BDDONE" by simp
  from restrict_idempotent[OF this, of "OBDD (Node 1 (Node 2 BDDNODEZERO BDDNODEONE) BDDNODEONE)"
      "OBDD (Node 1 BDDNODEZERO BDDNODEONE)"] b
  show ?thesis by blast
qed

section \<open>Memoisation and numbering in the registry\<close>

text \<open>
  The identities of the well-formed requests of a sequence, in request order,
  and the number an identity gets when uniqids are handed out from 1 in the
  order of first requests: one more than the number of distinct identities
  requested before its first request.
\<close>

definition request_identity :: "pyobj \<times> pyobj \<Rightarrow> error + identity" where
  "request_identity req = identity_of (fst req) (snd req)"

definition requested :: "(pyobj \<times> pyobj) list \<Rightarrow> identity list" where
  "requested reqs =
     concat (map (\<lambda>req. case request_identity req of Inl e \<Rightarrow> [] | Inr k \<Rightarrow> [k]) reqs)"

definition first_request_number :: "identity \<Rightarrow> identity list \<Rightarrow> int" where
  "first_request_number k ks = 1 + int (card (set (takeWhile (\<lambda>k'. k' \<noteq> k) ks)))"

text \<open>
  The registry after the well-formed requests \<open>ks\<close>: the counter is one more than
  the number of identities seen, both dictionaries hold exactly these
  identities, and each stored variable carries the number of its identity.
\<close>

definition registry_after :: "identity list \<Rightarrow> registry \<Rightarrow> bool" where
  "registry_after ks reg =
     (COUNT reg = 1 + int (card (set ks)) \<and>
      dom (VARIABLES reg) = set ks \<and>
      dom (UNIQIDS reg) = set ks \<and>
      (\<forall>k v. VARIABLES reg k = Some v \<longrightarrow>
         uniqid v = first_request_number k ks \<and> names v = fst k \<and> indices v = snd k))"

lemma registry_after_var:
  assumes "registry_after ks reg" and "VARIABLES reg k = Some v"
  shows "uniqid v = first_request_number k ks" and "names v = fst k" and "indices v = snd k"
    and "k \<in> set ks"
proof -
  from assms(1) have a: "\<forall>k v. VARIABLES reg k = Some v \<longrightarrow>
      uniqid v = first_request_number k ks \<and> names v = fst k \<and> indices v = snd k"
    and d: "dom (VARIABLES reg) = set ks"
    unfolding registry_after_def by blast+
  from a assms(2) show "uniqid v = first_request_number k ks" "names v = fst k" "indices v = snd k"
    by blast+
  from d assms(2) show "k \<in> set ks" by blast
qed

lemma registry_after_initial: "registry_after [] initial_registry"
  by (simp add: registry_after_def initial_registry_def)

lemma first_request_number_old:
  "k \<in> set ks \<Longrightarrow> first_request_number k (ks @ ks') = first_request_number k ks"
  by (simp add: first_request_number_def takeWhile_append1)

lemma first_request_number_new:
  "k \<notin> set ks \<Longrightarrow> first_request_number k (ks @ [k]) = 1 + int (card (set ks))"
proof -
  assume "k \<notin> set ks"
  then have "takeWhile (\<lambda>k'. k' \<noteq> k) (ks @ [k]) = ks"
    by (induction ks) auto
  then show ?thesis by (simp add: first_request_number_def)
qed

lemma var_hit:
  "identity_of n i = Inr k \<Longrightarrow> VARIABLES reg k = Some v \<Longrightarrow> var n i reg = (Inr v, reg)"
  by (cases k) (simp add: var_def)

lemma var_miss:
  assumes "identity_of n i = Inr k" and "VARIABLES reg k = None" and "UNIQIDS reg k = None"
  shows "\<exists>v reg'. var n i reg = (Inr v, reg') \<and>
     v = \<lparr>uniqid = COUNT reg, names = fst k, indices = snd k, obj_id = next_obj reg\<rparr> \<and>
     VARIABLES reg' = (VARIABLES reg)(k \<mapsto> v) \<and> UNIQIDS reg' = (UNIQIDS reg)(k \<mapsto> COUNT reg) \<and>
     COUNT reg' = COUNT reg + 1 \<and> next_obj reg' = next_obj reg + 1"
  using assms by (cases k) (simp add: var_def Variable_init_def Let_def)

lemma var_step:
  assumes inv: "registry_after ks reg" and k: "identity_of n i = Inr k"
  shows "\<exists>v reg'. var n i reg = (Inr v, reg') \<and> registry_after (ks @ [k]) reg' \<and>
     VARIABLES reg' k = Some v \<and>
     (\<forall>k' v'. VARIABLES reg k' = Some v' \<longrightarrow> VARIABLES reg' k' = Some v')"
proof (cases "VARIABLES reg k")
  case (Some v)
  with inv have mem: "k \<in> set ks" by (auto simp: registry_after_def)
  then have "set (ks @ [k]) = set ks" by auto
  moreover have "first_request_number k' (ks @ [k]) = first_request_number k' ks"
    if "VARIABLES reg k' = Some v'" for k' v'
    using that inv by (intro first_request_number_old) (auto simp: registry_after_def)
  ultimately have "registry_after (ks @ [k]) reg"
    using inv unfolding registry_after_def by simp
  with var_hit[OF k Some] Some show ?thesis by simp
next
  case None
  with inv have new: "k \<notin> set ks" by (auto simp: registry_after_def)
  with inv have "UNIQIDS reg k = None" by (auto simp: registry_after_def)
  from var_miss[OF k None this] obtain v reg' where
    r: "var n i reg = (Inr v, reg')"
      "v = \<lparr>uniqid = COUNT reg, names = fst k, indices = snd k, obj_id = next_obj reg\<rparr>"
      "VARIABLES reg' = (VARIABLES reg)(k \<mapsto> v)" "UNIQIDS reg' = (UNIQIDS reg)(k \<mapsto> COUNT reg)"
      "COUNT reg' = COUNT reg + 1" "next_obj reg' = next_obj reg + 1"
    by blast
  have c: "COUNT reg = 1 + int (card (set ks))" using inv by (simp add: registry_after_def)
  have "registry_after (ks @ [k]) reg'"
    unfolding registry_after_def
  proof (intro conjI)
    show "COUNT reg' = 1 + int (card (set (ks @ [k])))" using new c r(5) by simp
    show "dom (VARIABLES reg') = set (ks @ [k])" using inv r(3) by (auto simp: registry_after_def)
    show "dom (UNIQIDS reg') = set (ks @ [k])" using inv r(4) by (auto simp: registry_after_def)
    show "\<forall>k' v'. VARIABLES reg' k' = Some v' \<longrightarrow>
        uniqid v' = first_request_number k' (ks @ [k]) \<and> names v' = fst k' \<and> indices v' = snd k'"
    proof (intro allI impI)
      fix k' v' assume a: "VARIABLES reg' k' = Some v'"
      show "uniqid v' = first_request_number k' (ks @ [k]) \<and> names v' = fst k' \<and> indices v' = snd k'"
      proof (cases "k' = k")
        case True
        with a r(3) have "v' = v" by simp
        with True r(2) c first_request_number_new[OF new] show ?thesis by simp
      next
        case False
        with a r(3) have old: "VARIABLES reg k' = Some v'" by simp
        from registry_after_var[OF inv old] first_request_number_old[of k' ks "[k]"]
        show ?thesis by simp
      qed
    qed
  qed
  moreover have "VARIABLES reg' k = Some v" using r(3) by simp
  moreover have "\<forall>k' v'. VARIABLES reg k' = Some v' \<longrightarrow> VARIABLES reg' k' = Some v'"
    using r(3) None by auto
  ultimately show ?thesis using r(1) by blast
qed

lemma var_invalid:
  "identity_of n i = Inl e \<Longrightarrow> var n i reg = (Inl e, reg)"
  by (simp add: var_def)


definition answer :: "registry \<Rightarrow> pyobj \<times> pyobj \<Rightarrow> error + Variable" where
  "answer reg req =
     (case request_identity req of
        Inl e \<Rightarrow> Inl e
      | Inr k \<Rightarrow> (case VARIABLES reg k of Some v \<Rightarrow> Inr v | None \<Rightarrow> Inl KeyError))"

lemma var_calls_trace:
  "registry_after ks reg \<Longrightarrow>
   \<exists>reg'. var_calls reqs reg = (map (answer reg') reqs, reg') \<and>
          registry_after (ks @ requested reqs) reg' \<and>
          (\<forall>k v. VARIABLES reg k = Some v \<longrightarrow> VARIABLES reg' k = Some v)"
proof (induction reqs arbitrary: ks reg)
  case Nil
  then show ?case by (simp add: requested_def)
next
  case (Cons req reqs)
  obtain n i where req: "req = (n, i)" by (cases req)
  show ?case
  proof (cases "identity_of n i")
    case (Inl e)
    from Cons.IH[OF Cons.prems] obtain reg' where
      r: "var_calls reqs reg = (map (answer reg') reqs, reg')"
         "registry_after (ks @ requested reqs) reg'"
         "\<forall>k v. VARIABLES reg k = Some v \<longrightarrow> VARIABLES reg' k = Some v"
      by blast
    have "requested (req # reqs) = requested reqs"
      using Inl by (simp add: requested_def request_identity_def req)
    moreover have "answer reg' req = Inl e"
      using Inl by (simp add: answer_def request_identity_def req)
    ultimately show ?thesis
      using r var_invalid[OF Inl, of reg] by (auto simp: req)
  next
    case (Inr k)
    from var_step[OF Cons.prems Inr] obtain v reg1 where
      s: "var n i reg = (Inr v, reg1)" "registry_after (ks @ [k]) reg1" "VARIABLES reg1 k = Some v"
         "\<forall>k' v'. VARIABLES reg k' = Some v' \<longrightarrow> VARIABLES reg1 k' = Some v'"
      by blast
    from Cons.IH[OF s(2)] obtain reg' where
      r: "var_calls reqs reg1 = (map (answer reg') reqs, reg')"
         "registry_after ((ks @ [k]) @ requested reqs) reg'"
         "\<forall>k v. VARIABLES reg1 k = Some v \<longrightarrow> VARIABLES reg' k = Some v"
      by blast
    have "requested (req # reqs) = k # requested reqs"
      using Inr by (simp add: requested_def request_identity_def req)
    moreover have "VARIABLES reg' k = Some v" using s(3) r(3) by blast
    then have "answer reg' req = Inr v"
      using Inr by (simp add: answer_def request_identity_def req)
    ultimately show ?thesis
      using r s by (auto simp: req)
  qed
qed

lemma takeWhile_before:
  "k \<in> set (takeWhile (\<lambda>x. x \<noteq> k') ks) \<Longrightarrow>
   set (takeWhile (\<lambda>x. x \<noteq> k) ks) \<subseteq> set (takeWhile (\<lambda>x. x \<noteq> k') ks)"
  by (induction ks) (auto split: if_splits)

lemma takeWhile_first:
  "k \<noteq> k' \<Longrightarrow> k \<in> set ks \<Longrightarrow> k' \<in> set ks \<Longrightarrow>
   k \<in> set (takeWhile (\<lambda>x. x \<noteq> k') ks) \<or> k' \<in> set (takeWhile (\<lambda>x. x \<noteq> k) ks)"
  by (induction ks) auto

lemma takeWhile_self: "k \<notin> set (takeWhile (\<lambda>x. x \<noteq> k) ks)"
  by (induction ks) auto

lemma first_request_number_less:
  assumes "k \<in> set (takeWhile (\<lambda>x. x \<noteq> k') ks)"
  shows "first_request_number k ks < first_request_number k' ks"
proof -
  have "set (takeWhile (\<lambda>x. x \<noteq> k) ks) \<subset> set (takeWhile (\<lambda>x. x \<noteq> k') ks)"
    using takeWhile_before[OF assms] takeWhile_self[of k ks] assms by blast
  then have "card (set (takeWhile (\<lambda>x. x \<noteq> k) ks)) < card (set (takeWhile (\<lambda>x. x \<noteq> k') ks))"
    by (intro psubset_card_mono) simp_all
  then show ?thesis by (simp add: first_request_number_def)
qed

lemma first_request_number_inj:
  assumes "k \<in> set ks" and "k' \<in> set ks"
  shows "(first_request_number k' ks = first_request_number k ks) = (k' = k)"
proof (cases "k' = k")
  case False
  from takeWhile_first[OF False assms(2) assms(1)]
  show ?thesis using first_request_number_less[of k' k ks] first_request_number_less[of k k' ks] False
    by auto
qed simp

lemma set_requested:
  "set (requested reqs) = {k. \<exists>req \<in> set reqs. request_identity req = Inr k}"
  by (auto simp: requested_def split: sum.splits)

lemma requested_mem:
  "i < length reqs \<Longrightarrow> request_identity (reqs ! i) = Inr k \<Longrightarrow> k \<in> set (requested reqs)"
  unfolding set_requested using nth_mem by blast

text \<open>
  Claim C8. Over any sequence of calls of \<^verbatim>\<open>var\<close> from the initial registry:
  a well-formed request returns a variable of its identity whose uniqid is the
  first-request number of the identity (1 for the first new identity, 2 for
  the second, and so on); two requests return the same \<^verbatim>\<open>Variable\<close> object
  exactly when their identities are equal, and the same uniqid exactly when
  their identities are equal.
\<close>

theorem registry_memoizes_and_numbers:
  "let outs = fst (var_calls reqs initial_registry) in
   length outs = length reqs \<and>
   (\<forall>i<length reqs. \<forall>k. request_identity (reqs ! i) = Inr k \<longrightarrow>
      (\<exists>v. outs ! i = Inr v \<and> names v = fst k \<and> indices v = snd k \<and>
           uniqid v = first_request_number k (requested reqs) \<and>
           (\<forall>j<length reqs. \<forall>k'. request_identity (reqs ! j) = Inr k' \<longrightarrow>
              (\<exists>v'. outs ! j = Inr v' \<and> (v' = v) = (k' = k) \<and>
                    (uniqid v' = uniqid v) = (k' = k)))))"
proof -
  from var_calls_trace[OF registry_after_initial, of reqs] obtain reg where
    r: "var_calls reqs initial_registry = (map (answer reg) reqs, reg)"
       "registry_after (requested reqs) reg"
    by auto
  have ans: "\<exists>v. answer reg (reqs ! i) = Inr v \<and> VARIABLES reg k = Some v \<and>
      names v = fst k \<and> indices v = snd k \<and> uniqid v = first_request_number k (requested reqs)"
    if "i < length reqs" "request_identity (reqs ! i) = Inr k" for i k
  proof -
    from requested_mem[OF that] r(2) have "k \<in> dom (VARIABLES reg)"
      by (simp add: registry_after_def)
    then obtain v where v: "VARIABLES reg k = Some v" by blast
    with that(2) registry_after_var[OF r(2) v] show ?thesis by (simp add: answer_def)
  qed
  have len: "length (map (answer reg) reqs) = length reqs" by simp
  have main: "\<forall>i<length reqs. \<forall>k. request_identity (reqs ! i) = Inr k \<longrightarrow>
      (\<exists>v. map (answer reg) reqs ! i = Inr v \<and> names v = fst k \<and> indices v = snd k \<and>
           uniqid v = first_request_number k (requested reqs) \<and>
           (\<forall>j<length reqs. \<forall>k'. request_identity (reqs ! j) = Inr k' \<longrightarrow>
              (\<exists>v'. map (answer reg) reqs ! j = Inr v' \<and> (v' = v) = (k' = k) \<and>
                    (uniqid v' = uniqid v) = (k' = k))))"
  proof (intro allI impI)
    fix i k assume i: "i < length reqs" "request_identity (reqs ! i) = Inr k"
    from ans[OF i] obtain v where v: "answer reg (reqs ! i) = Inr v" "VARIABLES reg k = Some v"
      "names v = fst k" "indices v = snd k" "uniqid v = first_request_number k (requested reqs)"
      by blast
    have inner: "\<forall>j<length reqs. \<forall>k'. request_identity (reqs ! j) = Inr k' \<longrightarrow>
              (\<exists>v'. map (answer reg) reqs ! j = Inr v' \<and> (v' = v) = (k' = k) \<and>
                    (uniqid v' = uniqid v) = (k' = k))"
    proof (intro allI impI)
      fix j k' assume j: "j < length reqs" "request_identity (reqs ! j) = Inr k'"
      from ans[OF j] obtain v' where v': "answer reg (reqs ! j) = Inr v'" "VARIABLES reg k' = Some v'"
        "names v' = fst k'" "indices v' = snd k'" "uniqid v' = first_request_number k' (requested reqs)"
        by blast
      have u: "(uniqid v' = uniqid v) = (k' = k)"
        using first_request_number_inj[OF requested_mem[OF i] requested_mem[OF j]] v(5) v'(5)
        by simp
      have e: "(v' = v) = (k' = k)"
      proof
        assume "v' = v" with u show "k' = k" by simp
      next
        assume "k' = k" with v(2) v'(2) show "v' = v" by simp
      qed
      have "map (answer reg) reqs ! j = Inr v'" using v'(1) j(1) by simp
      with u e show "\<exists>v'. map (answer reg) reqs ! j = Inr v' \<and> (v' = v) = (k' = k) \<and>
                    (uniqid v' = uniqid v) = (k' = k)" by blast
    qed
    have "map (answer reg) reqs ! i = Inr v" using v(1) i(1) by simp
    with v(3,4,5) inner show "\<exists>v. map (answer reg) reqs ! i = Inr v \<and> names v = fst k \<and> indices v = snd k \<and>
           uniqid v = first_request_number k (requested reqs) \<and>
           (\<forall>j<length reqs. \<forall>k'. request_identity (reqs ! j) = Inr k' \<longrightarrow>
              (\<exists>v'. map (answer reg) reqs ! j = Inr v' \<and> (v' = v) = (k' = k) \<and>
                    (uniqid v' = uniqid v) = (k' = k)))" by blast
  qed
  show ?thesis unfolding Let_def r(1) fst_conv by (rule conjI[OF len main])
qed

text \<open>
  Three requests: \<^verbatim>\<open>var("a")\<close>, \<^verbatim>\<open>var("b")\<close> and \<^verbatim>\<open>var(("a",), ())\<close>; the first and the
  third have one identity.
\<close>

definition example_requests :: "(pyobj \<times> pyobj) list" where
  "example_requests =
     [(PyStr ''a'', PyNone), (PyStr ''b'', PyNone), (PyTuple [PyStr ''a''], PyTuple [])]"

lemma example_identity_2: "request_identity (example_requests ! 2) = Inr ([''a''], [])"
  by (simp add: example_requests_def request_identity_def identity_of_def)

lemma example_identity_0: "request_identity (example_requests ! 0) = Inr ([''a''], [])"
  by (simp add: example_requests_def request_identity_def identity_of_def)

lemma example_requested:
  "requested example_requests = [([''a''], []), ([''b''], []), ([''a''], [])]"
  by (simp add: example_requests_def requested_def request_identity_def identity_of_def)

lemma example_number:
  "first_request_number ([''a''], []) [([''a''], []), ([''b''], []), ([''a''], [])] = 1"
  by (simp add: first_request_number_def)

theorem registry_memoizes_and_numbers_witness:
  "\<exists>v. fst (var_calls example_requests initial_registry) ! 2 = Inr v \<and> uniqid v = 1 \<and>
       fst (var_calls example_requests initial_registry) ! 0 = Inr v"
proof -
  define outs where "outs = fst (var_calls example_requests initial_registry)"
  have l: "2 < length example_requests" "0 < length example_requests"
    by (simp_all add: example_requests_def)
  have m: "\<forall>i<length example_requests. \<forall>k. request_identity (example_requests ! i) = Inr k \<longrightarrow>
      (\<exists>v. outs ! i = Inr v \<and> names v = fst k \<and> indices v = snd k \<and>
           uniqid v = first_request_number k (requested example_requests) \<and>
           (\<forall>j<length example_requests. \<forall>k'. request_identity (example_requests ! j) = Inr k' \<longrightarrow>
              (\<exists>v'. outs ! j = Inr v' \<and> (v' = v) = (k' = k) \<and>
                    (uniqid v' = uniqid v) = (k' = k))))"
    using registry_memoizes_and_numbers[of example_requests]
    unfolding Let_def outs_def by (rule conjunct2)
  from m[rule_format, OF l(1) example_identity_2] obtain v where v: "outs ! 2 = Inr v"
    "uniqid v = first_request_number ([''a''], []) (requested example_requests)"
    "\<forall>j<length example_requests. \<forall>k'. request_identity (example_requests ! j) = Inr k' \<longrightarrow>
              (\<exists>v'. outs ! j = Inr v' \<and> (v' = v) = (k' = ([''a''], [])) \<and>
                    (uniqid v' = uniqid v) = (k' = ([''a''], [])))"
    by (elim exE conjE)
  from v(3)[rule_format, OF l(2) example_identity_0] obtain v' where "outs ! 0 = Inr v'" "v' = v"
    by (elim exE conjE) simp
  with v(1,2) have "outs ! 2 = Inr v \<and> uniqid v = 1 \<and> outs ! 0 = Inr v"
    by (simp add: example_requested example_number)
  then show ?thesis unfolding outs_def by (rule exI)
qed

section \<open>The node store with object addresses\<close>

text \<open>
  The model above reads a node as the term of its key, so that two nodes with
  equal keys are one node by construction. This section does not assume it. A
  node object has an address; \<^verbatim>\<open>is\<close> on nodes is equality of addresses;
  \<^verbatim>\<open>_NODES\<close> is a table from keys \<open>(root, lo, hi)\<close>, with the children given by
  their addresses, to addresses; and the functions of \<^verbatim>\<open>obdd.py\<close> thread the
  store. The functions of this section carry the suffix \<open>_store\<close>; each is
  shown to refine the function of the same name above. That two addresses are
  equal exactly when the nodes are equal as terms is then a theorem
  (\<open>identity_is_equality\<close>), which rests on the invariant the table keeps.

  Addresses 0 and 1 are the module-level objects \<^verbatim>\<open>BDDNODEZERO\<close> and
  \<^verbatim>\<open>BDDNODEONE\<close>. Their entries in \<^verbatim>\<open>_NODES\<close> have the keys \<open>(-1, None, None)\<close> and
  \<open>(-2, None, None)\<close>, which no call of \<^verbatim>\<open>_obddnode\<close> looks up (its children are
  nodes), so the table of the model holds the internal nodes only. \<open>objects\<close>
  gives the fields \<open>root\<close>, \<open>lo\<close>, \<open>hi\<close> of the internal node at an address.

  \<^verbatim>\<open>_NODES\<close> and \<^verbatim>\<open>_BDDS\<close> are weak-value dictionaries: an entry disappears once
  the program holds no other reference to its value. A node holds its children
  and a diagram holds its node, so every object the program still holds, and
  every node below it, keeps its entry. The model keeps all entries: it is the
  run in which nothing has been collected, and it agrees with every run on the
  objects that are still held, which are the only ones a comparison can be
  applied to.
\<close>

type_synonym addr = nat

record node_store =
  objects :: "addr \<rightharpoonup> (int \<times> addr \<times> addr)"
  NODES :: "(int \<times> addr \<times> addr) \<rightharpoonup> addr"
  next_addr :: addr

definition initial_store :: node_store where
  "initial_store = \<lparr>objects = Map.empty, NODES = Map.empty, next_addr = 2\<rparr>"

text \<open>
  \<^verbatim>\<open>_obddnode(root, lo, hi)\<close>: \<^verbatim>\<open>lo is hi\<close> compares addresses; otherwise the key is
  looked up in \<^verbatim>\<open>_NODES\<close>, and on \<^verbatim>\<open>KeyError\<close> a new object is allocated and
  entered.
\<close>

definition obddnode_store :: "int \<Rightarrow> addr \<Rightarrow> addr \<Rightarrow> node_store \<Rightarrow> addr \<times> node_store" where
  "obddnode_store r lo hi s =
     (if lo = hi then (lo, s)
      else (case NODES s (r, lo, hi) of
              Some n \<Rightarrow> (n, s)
            | None \<Rightarrow>
                (next_addr s,
                 s\<lparr>objects := (objects s)(next_addr s \<mapsto> (r, lo, hi)),
                   NODES := (NODES s)((r, lo, hi) \<mapsto> next_addr s),
                   next_addr := next_addr s + 1\<rparr>)))"

text \<open>
  \<open>denotes s a t\<close>: the object at address \<open>a\<close> of the store \<open>s\<close>, followed through
  its fields, is the term \<open>t\<close>.
\<close>

inductive denotes :: "node_store \<Rightarrow> addr \<Rightarrow> OBDDNode \<Rightarrow> bool" for s :: node_store where
  zero: "denotes s 0 BDDNODEZERO"
| one: "denotes s (Suc 0) BDDNODEONE"
| internal: "objects s a = Some (r, lo, hi) \<Longrightarrow> denotes s lo tlo \<Longrightarrow> denotes s hi thi \<Longrightarrow>
     denotes s a (Node r tlo thi)"

text \<open>
  The invariant of the store: every internal node lies above the terminals and
  above its children, it is the entry of its key in \<^verbatim>\<open>_NODES\<close>, and every entry
  of \<^verbatim>\<open>_NODES\<close> is the node with that key.
\<close>

definition store_inv :: "node_store \<Rightarrow> bool" where
  "store_inv s =
     (2 \<le> next_addr s \<and>
      (\<forall>a r lo hi. objects s a = Some (r, lo, hi) \<longrightarrow>
         2 \<le> a \<and> a < next_addr s \<and> lo < a \<and> hi < a \<and> NODES s (r, lo, hi) = Some a) \<and>
      (\<forall>k a. NODES s k = Some a \<longrightarrow> objects s a = Some k))"

lemma store_inv_objects:
  "store_inv s \<Longrightarrow> objects s a = Some (r, lo, hi) \<Longrightarrow>
   2 \<le> a \<and> a < next_addr s \<and> lo < a \<and> hi < a \<and> NODES s (r, lo, hi) = Some a"
  unfolding store_inv_def by blast

lemma store_inv_ge2: "store_inv s \<Longrightarrow> objects s a = Some k \<Longrightarrow> 2 \<le> a"
  unfolding store_inv_def by (cases k) blast

lemma store_inv_next: "store_inv s \<Longrightarrow> 2 \<le> next_addr s"
  unfolding store_inv_def by blast

lemma store_inv_NODES: "store_inv s \<Longrightarrow> NODES s k = Some a \<Longrightarrow> objects s a = Some k"
  unfolding store_inv_def by blast

lemma store_inv_initial: "store_inv initial_store"
  by (simp add: store_inv_def initial_store_def)

lemma denotes_zero: "store_inv s \<Longrightarrow> denotes s 0 t \<Longrightarrow> t = BDDNODEZERO"
proof (erule denotes.cases)
  fix a r lo hi tlo thi
  assume "store_inv s" "0 = a" "objects s a = Some (r, lo, hi)"
  with store_inv_ge2[of s 0 "(r, lo, hi)"] show "t = BDDNODEZERO" by simp
qed simp_all

lemma denotes_one: "store_inv s \<Longrightarrow> denotes s (Suc 0) t \<Longrightarrow> t = BDDNODEONE"
proof (erule denotes.cases)
  fix a r lo hi tlo thi
  assume "store_inv s" "Suc 0 = a" "objects s a = Some (r, lo, hi)"
  with store_inv_ge2[of s "Suc 0" "(r, lo, hi)"] show "t = BDDNODEONE" by simp
qed simp_all

lemma denotes_internal:
  assumes "store_inv s" and "objects s a = Some (r, lo, hi)" and "denotes s a t"
  shows "\<exists>tlo thi. t = Node r tlo thi \<and> denotes s lo tlo \<and> denotes s hi thi"
  using assms(3)
proof (cases rule: denotes.cases)
  case zero
  with store_inv_ge2[OF assms(1,2)] show ?thesis by simp
next
  case one
  with store_inv_ge2[OF assms(1,2)] show ?thesis by simp
next
  case (internal r' lo' hi' tlo thi)
  with assms(2) have "r' = r" "lo' = lo" "hi' = hi" by simp_all
  with internal show ?thesis by blast
qed

lemma denotes_Node:
  assumes "denotes s b (Node r tlo thi)"
  shows "\<exists>lo hi. objects s b = Some (r, lo, hi) \<and> denotes s lo tlo \<and> denotes s hi thi"
  using assms by (cases rule: denotes.cases) blast

lemma denotes_functional:
  "denotes s a t \<Longrightarrow> store_inv s \<Longrightarrow> denotes s a t' \<Longrightarrow> t = t'"
proof (induction arbitrary: t' rule: denotes.induct)
  case zero
  then show ?case using denotes_zero by blast
next
  case one
  then show ?case using denotes_one by blast
next
  case (internal a r lo hi tlo thi)
  from denotes_internal[OF internal.prems(1) internal.hyps(1) internal.prems(2)]
  obtain tlo' thi' where t': "t' = Node r tlo' thi'" "denotes s lo tlo'" "denotes s hi thi'"
    by blast
  from internal.IH(1)[OF internal.prems(1) t'(2)] internal.IH(2)[OF internal.prems(1) t'(3)] t'(1)
  show ?case by simp
qed

lemma denotes_injective:
  "denotes s a t \<Longrightarrow> store_inv s \<Longrightarrow> denotes s b t \<Longrightarrow> a = b"
proof (induction arbitrary: b rule: denotes.induct)
  case zero
  from zero(2) show ?case by (cases rule: denotes.cases) simp_all
next
  case one
  from one(2) show ?case by (cases rule: denotes.cases) simp_all
next
  case (internal a r lo hi tlo thi)
  from denotes_Node[OF internal.prems(2)] obtain lo' hi' where
    b: "objects s b = Some (r, lo', hi')" "denotes s lo' tlo" "denotes s hi' thi"
    by blast
  from internal.IH(1)[OF internal.prems(1) b(2)] internal.IH(2)[OF internal.prems(1) b(3)]
  have e: "lo' = lo" "hi' = hi" by simp_all
  from store_inv_objects[OF internal.prems(1) internal.hyps(1)]
  have "NODES s (r, lo, hi) = Some a" by simp
  moreover from store_inv_objects[OF internal.prems(1) b(1)] e
  have "NODES s (r, lo, hi) = Some b" by simp
  ultimately show ?case by simp
qed

lemma denotes_allocated: "denotes s a t \<Longrightarrow> store_inv s \<Longrightarrow> a < next_addr s"
proof (induction rule: denotes.induct)
  case (internal a r lo hi tlo thi)
  from store_inv_objects[OF internal.prems internal.hyps(1)] show ?case by simp
qed (use store_inv_next in force)+

lemma denotes_mono:
  assumes "denotes s a t" and sub: "\<And>b k. objects s b = Some k \<Longrightarrow> objects s' b = Some k"
  shows "denotes s' a t"
  using assms(1)
proof (induction rule: denotes.induct)
  case zero
  show ?case by (rule denotes.zero)
next
  case one
  show ?case by (rule denotes.one)
next
  case (internal a r lo hi tlo thi)
  from sub[OF internal.hyps(1)] internal.IH show ?case by (rule denotes.internal)
qed

text \<open>
  Identity of node objects is equality of the terms they denote: two
  addresses of a store that satisfies the invariant are the same address
  exactly when they denote the same term.
\<close>

lemma identity_is_equality:
  "store_inv s \<Longrightarrow> denotes s a t \<Longrightarrow> denotes s b u \<Longrightarrow> (a = b) = (t = u)"
  using denotes_functional denotes_injective by blast

text \<open>
  \<^verbatim>\<open>_obddnode\<close> on the store keeps the invariant and returns the address of the
  node that \<open>obddnode\<close> returns.
\<close>

lemma obddnode_store_refines:
  assumes inv: "store_inv s" and lo: "denotes s lo tlo" and hi: "denotes s hi thi"
    and call: "obddnode_store r lo hi s = (a, s')"
  shows "store_inv s' \<and> denotes s' a (obddnode r tlo thi) \<and>
         (\<forall>b t. denotes s b t \<longrightarrow> denotes s' b t)"
proof (cases "lo = hi")
  case True
  with lo hi inv have "tlo = thi" using denotes_functional by blast
  moreover from True call have "a = lo" "s' = s" by (simp_all add: obddnode_store_def)
  ultimately show ?thesis using lo inv by (simp add: obddnode_def)
next
  case False
  with lo hi inv have ne: "tlo \<noteq> thi" using denotes_injective by blast
  show ?thesis
  proof (cases "NODES s (r, lo, hi)")
    case (Some n)
    with inv have "objects s n = Some (r, lo, hi)" by (intro store_inv_NODES)
    then have "denotes s n (Node r tlo thi)" using lo hi by (rule denotes.internal)
    moreover from Some False call have "a = n" "s' = s" by (simp_all add: obddnode_store_def)
    ultimately show ?thesis using inv ne by (simp add: obddnode_def)
  next
    case None
    define n where "n = next_addr s"
    define s1 where "s1 = s\<lparr>objects := (objects s)(n \<mapsto> (r, lo, hi)),
      NODES := (NODES s)((r, lo, hi) \<mapsto> n), next_addr := n + 1\<rparr>"
    from None False have "obddnode_store r lo hi s = (n, s1)"
      by (simp add: obddnode_store_def n_def s1_def)
    with call have a: "a = n" and s': "s' = s1" by simp_all
    have sel: "objects s1 = (objects s)(n \<mapsto> (r, lo, hi))"
      "NODES s1 = (NODES s)((r, lo, hi) \<mapsto> n)" "next_addr s1 = n + 1"
      by (simp_all add: s1_def)
    have n2: "2 \<le> n" using store_inv_next[OF inv] by (simp add: n_def)
    have fresh: "objects s n = None"
    proof (cases "objects s n")
      case (Some k)
      obtain r' lo' hi' where "k = (r', lo', hi')" by (cases k) auto
      with Some store_inv_objects[OF inv, of n r' lo' hi'] show ?thesis by (simp add: n_def)
    qed simp
    have old: "objects s1 b = Some k" if "objects s b = Some k" for b k
      using that fresh by (auto simp: sel)
    have keep: "denotes s1 b t" if "denotes s b t" for b t
      using that old by (rule denotes_mono)
    have "objects s1 n = Some (r, lo, hi)" by (simp add: sel)
    then have "denotes s1 n (Node r tlo thi)"
      using keep[OF lo] keep[OF hi] by (rule denotes.internal)
    moreover have "store_inv s1"
      unfolding store_inv_def
    proof (intro conjI)
      show "2 \<le> next_addr s1" using n2 by (simp add: sel)
    next
      show "\<forall>b r' lo' hi'. objects s1 b = Some (r', lo', hi') \<longrightarrow>
        2 \<le> b \<and> b < next_addr s1 \<and> lo' < b \<and> hi' < b \<and> NODES s1 (r', lo', hi') = Some b"
      proof (intro allI impI)
      fix b r' lo' hi' assume o: "objects s1 b = Some (r', lo', hi')"
      show "2 \<le> b \<and> b < next_addr s1 \<and> lo' < b \<and> hi' < b \<and> NODES s1 (r', lo', hi') = Some b"
      proof (cases "b = n")
        case True
        with o have "r' = r" "lo' = lo" "hi' = hi" by (simp_all add: sel)
        moreover have "lo < n" "hi < n"
          using denotes_allocated[OF lo inv] denotes_allocated[OF hi inv] by (simp_all add: n_def)
        ultimately show ?thesis using True n2 by (simp add: sel)
      next
        case False
        with o have ob: "objects s b = Some (r', lo', hi')" by (simp add: sel)
        with store_inv_objects[OF inv, of b r' lo' hi']
        have "2 \<le> b" "b < n" "lo' < b" "hi' < b" "NODES s (r', lo', hi') = Some b"
          by (simp_all add: n_def)
        with None show ?thesis by (auto simp: sel)
      qed
      qed
    next
      show "\<forall>k b. NODES s1 k = Some b \<longrightarrow> objects s1 b = Some k"
      proof (intro allI impI)
      fix k b assume nk: "NODES s1 k = Some b"
      show "objects s1 b = Some k"
      proof (cases "k = (r, lo, hi)")
        case True
        with nk show ?thesis by (simp add: sel)
      next
        case False
        with nk have "NODES s k = Some b" by (simp add: sel)
        with inv have "objects s b = Some k" by (intro store_inv_NODES)
        then show ?thesis by (rule old)
      qed
      qed
    qed
    ultimately show ?thesis using keep ne by (simp add: obddnode_def a s')
  qed
qed

subsection \<open>Negation, restriction and ITE on the store\<close>

text \<open>
  \<^verbatim>\<open>node.root\<close>, \<^verbatim>\<open>_neg\<close>, \<^verbatim>\<open>_restrict\<close> and \<^verbatim>\<open>_ite\<close> on addresses. Every test
  \<^verbatim>\<open>node is BDDNODEZERO\<close> or \<^verbatim>\<open>g is h\<close> is a comparison of addresses, the cache of
  \<^verbatim>\<open>_restrict\<close> is keyed by addresses, and the store is threaded through the calls
  in the order the source makes them. The recursion follows the pointers of the
  store, so the functions are partial: the value \<open>None\<close> stands for a run that
  does not return, or that reads an address holding no node. The refinement
  lemmas below show that on a store that satisfies the invariant every call
  returns.
\<close>

definition root_store :: "node_store \<Rightarrow> addr \<Rightarrow> int option" where
  "root_store s n =
     (if n = 0 then Some (- 1) else if n = 1 then Some (- 2) else map_option fst (objects s n))"

partial_function (option) neg_store :: "addr \<Rightarrow> node_store \<Rightarrow> (addr \<times> node_store) option" where
  "neg_store n s =
     (if n = 0 then Some (1, s)
      else if n = 1 then Some (0, s)
      else (case objects s n of
              None \<Rightarrow> None
            | Some (r, lo, hi) \<Rightarrow>
                Option.bind (neg_store lo s) (\<lambda>(lo', s1).
                Option.bind (neg_store hi s1) (\<lambda>(hi', s2).
                Some (obddnode_store r lo' hi' s2)))))"

type_synonym scache = "addr \<rightharpoonup> addr"

partial_function (option) restrict_store ::
  "addr \<Rightarrow> (int \<rightharpoonup> addr) \<Rightarrow> scache \<Rightarrow> node_store \<Rightarrow> (error + addr \<times> scache \<times> node_store) option" where
  "restrict_store n npoint cache s =
     (if n = 0 \<or> n = 1 then Some (Inr (n, cache, s))
      else (case cache n of
              Some ret \<Rightarrow> Some (Inr (ret, cache, s))
            | None \<Rightarrow>
                (case objects s n of
                   None \<Rightarrow> None
                 | Some (r, lo, hi) \<Rightarrow>
                     (case npoint r of
                        None \<Rightarrow>
                          Option.bind (restrict_store lo npoint cache s) (\<lambda>res1.
                            case res1 of
                              Inl e \<Rightarrow> Some (Inl e)
                            | Inr (lo', cache1, s1) \<Rightarrow>
                                Option.bind (restrict_store hi npoint cache1 s1) (\<lambda>res2.
                                  case res2 of
                                    Inl e \<Rightarrow> Some (Inl e)
                                  | Inr (hi', cache2, s2) \<Rightarrow>
                                      (let (ret, s3) = obddnode_store r lo' hi' s2
                                       in Some (Inr (ret, cache2(n \<mapsto> ret), s3)))))
                      | Some val \<Rightarrow>
                          (if val = 0 then
                             Option.bind (restrict_store lo npoint cache s) (\<lambda>res.
                               case res of
                                 Inl e \<Rightarrow> Some (Inl e)
                               | Inr (ret, cache1, s1) \<Rightarrow> Some (Inr (ret, cache1(n \<mapsto> ret), s1)))
                           else if val = 1 then
                             Option.bind (restrict_store hi npoint cache s) (\<lambda>res.
                               case res of
                                 Inl e \<Rightarrow> Some (Inl e)
                               | Inr (ret, cache1, s1) \<Rightarrow> Some (Inr (ret, cache1(n \<mapsto> ret), s1)))
                           else Some (Inl KeyError))))))"

definition restrict3_store ::
  "addr \<Rightarrow> addr \<Rightarrow> addr \<Rightarrow> (int \<rightharpoonup> addr) \<Rightarrow> node_store \<Rightarrow>
   (error + addr \<times> addr \<times> addr \<times> node_store) option" where
  "restrict3_store f g h npoint s =
     Option.bind (restrict_store f npoint Map.empty s) (\<lambda>rf.
       case rf of
         Inl e \<Rightarrow> Some (Inl e)
       | Inr (fv, _, s1) \<Rightarrow>
           Option.bind (restrict_store g npoint Map.empty s1) (\<lambda>rg.
             case rg of
               Inl e \<Rightarrow> Some (Inl e)
             | Inr (gv, _, s2) \<Rightarrow>
                 Option.bind (restrict_store h npoint Map.empty s2) (\<lambda>rh.
                   case rh of
                     Inl e \<Rightarrow> Some (Inl e)
                   | Inr (hv, _, s3) \<Rightarrow> Some (Inr (fv, gv, hv, s3)))))"

definition roots_store :: "node_store \<Rightarrow> addr list \<Rightarrow> int list option" where
  "roots_store s ns = those (map (root_store s) ns)"

partial_function (option) ite_store ::
  "addr \<Rightarrow> addr \<Rightarrow> addr \<Rightarrow> node_store \<Rightarrow> (error + addr \<times> node_store) option" where
  "ite_store f g h s =
     (if g = 1 \<and> h = 0 then Some (Inr (f, s))
      else if g = 0 \<and> h = 1 then map_option Inr (neg_store f s)
      else if f = 1 then Some (Inr (g, s))
      else if f = 0 then Some (Inr (h, s))
      else if g = h then Some (Inr (g, s))
      else
        (case roots_store s [f, g, h] of
           None \<Rightarrow> None
         | Some rs \<Rightarrow>
             (case py_min (filter (\<lambda>r. 0 < r) rs) of
                Inl e \<Rightarrow> Some (Inl e)
              | Inr x \<Rightarrow>
                  Option.bind (restrict3_store f g h [x \<mapsto> 0] s) (\<lambda>res0.
                    case res0 of
                      Inl e \<Rightarrow> Some (Inl e)
                    | Inr (fv0, gv0, hv0, s0) \<Rightarrow>
                        Option.bind (restrict3_store f g h [x \<mapsto> 1] s0) (\<lambda>res1.
                          case res1 of
                            Inl e \<Rightarrow> Some (Inl e)
                          | Inr (fv1, gv1, hv1, s1) \<Rightarrow>
                              Option.bind (ite_store fv0 gv0 hv0 s1) (\<lambda>r0.
                                case r0 of
                                  Inl e \<Rightarrow> Some (Inl e)
                                | Inr (lo, s2) \<Rightarrow>
                                    Option.bind (ite_store fv1 gv1 hv1 s2) (\<lambda>r1.
                                      case r1 of
                                        Inl e \<Rightarrow> Some (Inl e)
                                      | Inr (hi, s3) \<Rightarrow>
                                          Some (Inr (obddnode_store x lo hi s3)))))))))"

subsection \<open>The store functions refine the functions on terms\<close>

text \<open>
  A later store extends an earlier one: no object and no table entry is changed,
  so whatever an address denoted it still denotes.
\<close>

definition extends :: "node_store \<Rightarrow> node_store \<Rightarrow> bool" where
  "extends s s' = (\<forall>b k. objects s b = Some k \<longrightarrow> objects s' b = Some k)"

lemma extends_refl [simp]: "extends s s"
  by (simp add: extends_def)

lemma extends_trans: "extends s s1 \<Longrightarrow> extends s1 s2 \<Longrightarrow> extends s s2"
  by (simp add: extends_def)

lemma denotes_extends:
  assumes "denotes s a t" and "extends s s'"
  shows "denotes s' a t"
  using denotes_mono[OF assms(1), of s'] assms(2) unfolding extends_def by blast

lemma obddnode_store_extends:
  assumes "store_inv s" "denotes s lo tlo" "denotes s hi thi" "obddnode_store r lo hi s = (a, s')"
  shows "store_inv s'" and "denotes s' a (obddnode r tlo thi)" and "extends s s'"
proof -
  note r = obddnode_store_refines[OF assms]
  from r show "store_inv s'" "denotes s' a (obddnode r tlo thi)" by blast+
  show "extends s s'"
  proof (cases "lo = hi \<or> NODES s (r, lo, hi) \<noteq> None")
    case True
    with assms(4) have "s' = s" by (auto simp: obddnode_store_def split: if_splits)
    then show ?thesis by simp
  next
    case False
    then have a: "lo \<noteq> hi" "NODES s (r, lo, hi) = None" by auto
    have fresh: "objects s (next_addr s) = None"
    proof (cases "objects s (next_addr s)")
      case (Some k)
      obtain r' lo' hi' where "k = (r', lo', hi')" by (cases k) auto
      with Some store_inv_objects[OF assms(1), of "next_addr s" r' lo' hi'] show ?thesis by simp
    qed simp
    from a have "obddnode_store r lo hi s =
        (next_addr s, s\<lparr>objects := (objects s)(next_addr s \<mapsto> (r, lo, hi)),
                 NODES := (NODES s)((r, lo, hi) \<mapsto> next_addr s), next_addr := next_addr s + 1\<rparr>)"
      by (simp add: obddnode_store_def)
    with assms(4) have "objects s' = (objects s)(next_addr s \<mapsto> (r, lo, hi))"
      by auto
    with fresh show ?thesis by (auto simp: extends_def)
  qed
qed

lemma denotes_zero_addr: "denotes s n BDDNODEZERO \<Longrightarrow> n = 0"
  by (erule denotes.cases) simp_all

lemma denotes_one_addr: "denotes s n BDDNODEONE \<Longrightarrow> n = Suc 0"
  by (erule denotes.cases) simp_all

lemma denotes_Node_addr:
  assumes "store_inv s" and "denotes s n (Node r tlo thi)"
  shows "n \<noteq> 0 \<and> n \<noteq> Suc 0"
proof -
  from denotes_Node[OF assms(2)] obtain lo hi where "objects s n = Some (r, lo, hi)" by blast
  from store_inv_ge2[OF assms(1) this] show ?thesis by simp
qed

text \<open>
  \<^verbatim>\<open>_neg\<close> on the store returns, and returns the address of \<open>neg t\<close>.
\<close>

lemma neg_store_refines:
  "store_inv s \<Longrightarrow> denotes s n t \<Longrightarrow>
   \<exists>n' s'. neg_store n s = Some (n', s') \<and> store_inv s' \<and> extends s s' \<and> denotes s' n' (neg t)"
proof (induction t arbitrary: n s)
  case BDDNODEZERO
  from denotes_zero_addr[OF BDDNODEZERO(2)] BDDNODEZERO(1) show ?case
    by (subst neg_store.simps) (auto intro: denotes.one)
next
  case BDDNODEONE
  from denotes_one_addr[OF BDDNODEONE(2)] BDDNODEONE(1) show ?case
    by (subst neg_store.simps) (auto intro: denotes.zero)
next
  case (Node r tlo thi)
  from denotes_Node[OF Node.prems(2)] obtain lo hi where
    o: "objects s n = Some (r, lo, hi)" "denotes s lo tlo" "denotes s hi thi" by blast
  from denotes_Node_addr[OF Node.prems] have n: "n \<noteq> 0" "n \<noteq> Suc 0" by simp_all
  from Node.IH(1)[OF Node.prems(1) o(2)] obtain lo' s1 where
    1: "neg_store lo s = Some (lo', s1)" "store_inv s1" "extends s s1" "denotes s1 lo' (neg tlo)"
    by blast
  from Node.IH(2)[OF 1(2) denotes_extends[OF o(3) 1(3)]] obtain hi' s2 where
    2: "neg_store hi s1 = Some (hi', s2)" "store_inv s2" "extends s1 s2" "denotes s2 hi' (neg thi)"
    by blast
  obtain a s3 where 3: "obddnode_store r lo' hi' s2 = (a, s3)" by (cases "obddnode_store r lo' hi' s2")
  note r3 = obddnode_store_extends[OF 2(2) denotes_extends[OF 1(4) 2(3)] 2(4) 3]
  have "neg_store n s = Some (a, s3)"
    by (subst neg_store.simps) (simp add: n o(1) 1(1) 2(1) 3)
  moreover have "extends s s3" using 1(3) 2(3) r3(3) by (blast intro: extends_trans)
  ultimately show ?case using r3 by simp
qed

text \<open>
  A point of the store maps a root to the address of a terminal; the cache of
  \<^verbatim>\<open>_restrict\<close> is sound when each entry maps a node to its cofactor.
\<close>

definition spoint :: "(int \<rightharpoonup> bool) \<Rightarrow> (int \<rightharpoonup> addr)" where
  "spoint a = (\<lambda>r. map_option (\<lambda>b. if b then 1 else 0) (a r))"

definition scache_ok :: "node_store \<Rightarrow> (int \<rightharpoonup> bool) \<Rightarrow> scache \<Rightarrow> bool" where
  "scache_ok s a cache =
     (\<forall>m ret. cache m = Some ret \<longrightarrow> (\<exists>t. denotes s m t \<and> denotes s ret (cofactor t a)))"

lemma scache_ok_empty [simp]: "scache_ok s a Map.empty"
  by (simp add: scache_ok_def)

lemma scache_ok_extends: "scache_ok s a cache \<Longrightarrow> extends s s' \<Longrightarrow> scache_ok s' a cache"
  unfolding scache_ok_def using denotes_extends by blast

lemma scache_ok_upd:
  "scache_ok s a cache \<Longrightarrow> denotes s n t \<Longrightarrow> denotes s ret (cofactor t a) \<Longrightarrow>
   scache_ok s a (cache(n \<mapsto> ret))"
  unfolding scache_ok_def by auto

text \<open>
  \<^verbatim>\<open>_restrict\<close> on the store returns, and returns the address of the cofactor.
\<close>

lemma restrict_store_refines:
  "store_inv s \<Longrightarrow> denotes s n t \<Longrightarrow> scache_ok s a cache \<Longrightarrow>
   \<exists>n' cache' s'. restrict_store n (spoint a) cache s = Some (Inr (n', cache', s')) \<and>
      store_inv s' \<and> extends s s' \<and> denotes s' n' (cofactor t a) \<and> scache_ok s' a cache'"
proof (induction t arbitrary: n cache s)
  case BDDNODEZERO
  from denotes_zero_addr[OF BDDNODEZERO(2)] BDDNODEZERO show ?case
    by (subst restrict_store.simps) auto
next
  case BDDNODEONE
  from denotes_one_addr[OF BDDNODEONE(2)] BDDNODEONE show ?case
    by (subst restrict_store.simps) auto
next
  case (Node r tlo thi)
  let ?t = "Node r tlo thi"
  from denotes_Node[OF Node.prems(2)] obtain lo hi where
    o: "objects s n = Some (r, lo, hi)" "denotes s lo tlo" "denotes s hi thi" by blast
  from denotes_Node_addr[OF Node.prems(1,2)] have n: "n \<noteq> 0" "n \<noteq> Suc 0" by simp_all
  show ?case
  proof (cases "cache n")
    case (Some ret)
    with Node.prems(3) obtain t' where "denotes s n t'" "denotes s ret (cofactor t' a)"
      unfolding scache_ok_def by blast
    with denotes_functional[OF Node.prems(2) Node.prems(1)] have "denotes s ret (cofactor ?t a)"
      by blast
    moreover have "restrict_store n (spoint a) cache s = Some (Inr (ret, cache, s))"
      by (subst restrict_store.simps) (simp add: n Some)
    ultimately show ?thesis using Node.prems by auto
  next
    case None
    note miss = this
    show ?thesis
    proof (cases "a r")
      case None
      then have p: "spoint a r = None" by (simp add: spoint_def)
      from Node.IH(1)[OF Node.prems(1) o(2) Node.prems(3)] obtain lo' c1 s1 where
        1: "restrict_store lo (spoint a) cache s = Some (Inr (lo', c1, s1))" "store_inv s1"
           "extends s s1" "denotes s1 lo' (cofactor tlo a)" "scache_ok s1 a c1"
        by blast
      from Node.IH(2)[OF 1(2) denotes_extends[OF o(3) 1(3)] 1(5)] obtain hi' c2 s2 where
        2: "restrict_store hi (spoint a) c1 s1 = Some (Inr (hi', c2, s2))" "store_inv s2"
           "extends s1 s2" "denotes s2 hi' (cofactor thi a)" "scache_ok s2 a c2"
        by blast
      obtain ret s3 where 3: "obddnode_store r lo' hi' s2 = (ret, s3)"
        by (cases "obddnode_store r lo' hi' s2")
      note r3 = obddnode_store_extends[OF 2(2) denotes_extends[OF 1(4) 2(3)] 2(4) 3]
      have e: "extends s s3" using 1(3) 2(3) r3(3) by (blast intro: extends_trans)
      have d: "denotes s3 ret (cofactor ?t a)" using r3(2) None by simp
      have "scache_ok s3 a (c2(n \<mapsto> ret))"
        by (rule scache_ok_upd[OF scache_ok_extends[OF 2(5) r3(3)] denotes_extends[OF Node.prems(2) e] d])
      moreover have "restrict_store n (spoint a) cache s = Some (Inr (ret, c2(n \<mapsto> ret), s3))"
        by (subst restrict_store.simps) (simp add: n miss o(1) p 1(1) 2(1) 3)
      ultimately show ?thesis using r3(1) e d by blast
    next
      case (Some b)
      show ?thesis
      proof (cases b)
        case True
        with Some have p: "spoint a r = Some (Suc 0)" by (simp add: spoint_def)
        from Node.IH(2)[OF Node.prems(1) o(3) Node.prems(3)] obtain ret c1 s1 where
          1: "restrict_store hi (spoint a) cache s = Some (Inr (ret, c1, s1))" "store_inv s1"
             "extends s s1" "denotes s1 ret (cofactor thi a)" "scache_ok s1 a c1"
          by blast
        have d: "denotes s1 ret (cofactor ?t a)" using 1(4) Some True by simp
        have "scache_ok s1 a (c1(n \<mapsto> ret))"
          by (rule scache_ok_upd[OF 1(5) denotes_extends[OF Node.prems(2) 1(3)] d])
        moreover have "restrict_store n (spoint a) cache s = Some (Inr (ret, c1(n \<mapsto> ret), s1))"
          by (subst restrict_store.simps) (simp add: n miss o(1) p 1(1))
        ultimately show ?thesis using 1(2,3) d by blast
      next
        case False
        with Some have p: "spoint a r = Some 0" by (simp add: spoint_def)
        from Node.IH(1)[OF Node.prems(1) o(2) Node.prems(3)] obtain ret c1 s1 where
          1: "restrict_store lo (spoint a) cache s = Some (Inr (ret, c1, s1))" "store_inv s1"
             "extends s s1" "denotes s1 ret (cofactor tlo a)" "scache_ok s1 a c1"
          by blast
        have d: "denotes s1 ret (cofactor ?t a)" using 1(4) Some False by simp
        have "scache_ok s1 a (c1(n \<mapsto> ret))"
          by (rule scache_ok_upd[OF 1(5) denotes_extends[OF Node.prems(2) 1(3)] d])
        moreover have "restrict_store n (spoint a) cache s = Some (Inr (ret, c1(n \<mapsto> ret), s1))"
          by (subst restrict_store.simps) (simp add: n miss o(1) p 1(1))
        ultimately show ?thesis using 1(2,3) d by blast
      qed
    qed
  qed
qed

lemma restrict3_store_refines:
  assumes "store_inv s" "denotes s f tf" "denotes s g tg" "denotes s h th"
  shows "\<exists>fv gv hv s'. restrict3_store f g h (spoint a) s = Some (Inr (fv, gv, hv, s')) \<and>
      store_inv s' \<and> extends s s' \<and> denotes s' fv (cofactor tf a) \<and>
      denotes s' gv (cofactor tg a) \<and> denotes s' hv (cofactor th a)"
proof -
  from restrict_store_refines[OF assms(1,2) scache_ok_empty] obtain fv c1 s1 where
    1: "restrict_store f (spoint a) Map.empty s = Some (Inr (fv, c1, s1))" "store_inv s1"
       "extends s s1" "denotes s1 fv (cofactor tf a)" by blast
  from restrict_store_refines[OF 1(2) denotes_extends[OF assms(3) 1(3)] scache_ok_empty]
  obtain gv c2 s2 where
    2: "restrict_store g (spoint a) Map.empty s1 = Some (Inr (gv, c2, s2))" "store_inv s2"
       "extends s1 s2" "denotes s2 gv (cofactor tg a)" by blast
  have e2: "extends s s2" using 1(3) 2(3) by (rule extends_trans)
  from restrict_store_refines[OF 2(2) denotes_extends[OF assms(4) e2] scache_ok_empty]
  obtain hv c3 s3 where
    3: "restrict_store h (spoint a) Map.empty s2 = Some (Inr (hv, c3, s3))" "store_inv s3"
       "extends s2 s3" "denotes s3 hv (cofactor th a)" by blast
  have e3: "extends s s3" using e2 3(3) by (rule extends_trans)
  have "restrict3_store f g h (spoint a) s = Some (Inr (fv, gv, hv, s3))"
    by (simp add: restrict3_store_def 1(1) 2(1) 3(1))
  moreover have "denotes s3 fv (cofactor tf a)"
    using 1(4) 2(3) 3(3) by (blast intro: denotes_extends)
  moreover have "denotes s3 gv (cofactor tg a)" using 2(4) 3(3) by (rule denotes_extends)
  ultimately show ?thesis using 3(2,4) e3 by blast
qed

lemma root_store_denotes:
  assumes "store_inv s" and "denotes s n t"
  shows "root_store s n = Some (root t)"
proof (cases t)
  case BDDNODEZERO
  with denotes_zero_addr assms(2) show ?thesis by (simp add: root_store_def)
next
  case BDDNODEONE
  with denotes_one_addr[of s n] assms(2) show ?thesis by (simp add: root_store_def)
next
  case (Node r tlo thi)
  with denotes_Node[of s n r tlo thi] assms(2) obtain lo hi where
    "objects s n = Some (r, lo, hi)" by blast
  with denotes_Node_addr[OF assms(1), of n r tlo thi] assms(2) Node show ?thesis
    by (simp add: root_store_def)
qed

lemma roots_store_denotes:
  assumes "store_inv s" "denotes s f tf" "denotes s g tg" "denotes s h th"
  shows "roots_store s [f, g, h] = Some (map root [tf, tg, th])"
  using root_store_denotes[OF assms(1,2)] root_store_denotes[OF assms(1,3)]
    root_store_denotes[OF assms(1,4)]
  by (simp add: roots_store_def)

lemma addr_zero: "store_inv s \<Longrightarrow> denotes s a t \<Longrightarrow> (a = 0) = (t = BDDNODEZERO)"
  using identity_is_equality[of s a t 0 BDDNODEZERO] denotes.zero by blast

lemma addr_one: "store_inv s \<Longrightarrow> denotes s a t \<Longrightarrow> (a = Suc 0) = (t = BDDNODEONE)"
  using identity_is_equality[of s a t "Suc 0" BDDNODEONE] denotes.one by blast

lemma spoint_single_False: "[x \<mapsto> 0] = spoint [x \<mapsto> False]"
  by (auto simp: spoint_def)

lemma spoint_single_True: "[x \<mapsto> Suc 0] = spoint [x \<mapsto> True]"
  by (auto simp: spoint_def)

lemma ite_store_shortcut:
  assumes inv: "store_inv s" and f: "denotes s f tf" and g: "denotes s g tg" and h: "denotes s h th"
    and sc: "shortcut tf tg th" and r: "ite tf tg th = Inr t"
  shows "\<exists>a s'. ite_store f g h s = Some (Inr (a, s')) \<and> store_inv s' \<and> extends s s' \<and> denotes s' a t"
proof -
  note az = addr_zero[OF inv] and ao = addr_one[OF inv]
  note eq = identity_is_equality[OF inv g h]
  from neg_store_refines[OF inv f] obtain n' s' where
    ng: "neg_store f s = Some (n', s')" "store_inv s'" "extends s s'" "denotes s' n' (neg tf)"
    by blast
  consider (a) "tg = BDDNODEONE" "th = BDDNODEZERO"
    | (b) "\<not> (tg = BDDNODEONE \<and> th = BDDNODEZERO)" "tg = BDDNODEZERO" "th = BDDNODEONE"
    | (c) "\<not> (tg = BDDNODEONE \<and> th = BDDNODEZERO)" "\<not> (tg = BDDNODEZERO \<and> th = BDDNODEONE)"
          "tf = BDDNODEONE"
    | (d) "\<not> (tg = BDDNODEONE \<and> th = BDDNODEZERO)" "\<not> (tg = BDDNODEZERO \<and> th = BDDNODEONE)"
          "tf \<noteq> BDDNODEONE" "tf = BDDNODEZERO"
    | (e) "\<not> (tg = BDDNODEONE \<and> th = BDDNODEZERO)" "\<not> (tg = BDDNODEZERO \<and> th = BDDNODEONE)"
          "tf \<noteq> BDDNODEONE" "tf \<noteq> BDDNODEZERO" "tg = th"
    using sc unfolding shortcut_def by blast
  then show ?thesis
  proof cases
    case a
    with r ite_shortcut[OF sc] have "t = tf" by (auto split: if_splits)
    moreover from a az[OF h] ao[OF g] have "ite_store f g h s = Some (Inr (f, s))"
      by (subst ite_store.simps) simp
    ultimately show ?thesis using inv f by auto
  next
    case b
    with r ite_shortcut[OF sc] have "t = neg tf" by (auto split: if_splits)
    moreover from b az[OF g] ao[OF h] have "ite_store f g h s = Some (Inr (n', s'))"
      by (subst ite_store.simps) (simp add: ng(1))
    ultimately show ?thesis using ng by auto
  next
    case c
    with r ite_shortcut[OF sc] have "t = tg" by (auto split: if_splits)
    moreover from c az[OF g] ao[OF h] az[OF h] ao[OF g] ao[OF f]
    have "ite_store f g h s = Some (Inr (g, s))"
      by (subst ite_store.simps) auto
    ultimately show ?thesis using inv g by auto
  next
    case d
    with r ite_shortcut[OF sc] have "t = th" by (auto split: if_splits)
    moreover from d az[OF g] ao[OF h] az[OF h] ao[OF g] ao[OF f] az[OF f]
    have "ite_store f g h s = Some (Inr (h, s))"
      by (subst ite_store.simps) auto
    ultimately show ?thesis using inv h by auto
  next
    case e
    with r ite_shortcut[OF sc] have "t = tg" by (auto split: if_splits)
    moreover from e az[OF g] ao[OF h] az[OF h] ao[OF g] ao[OF f] az[OF f] eq
    have "ite_store f g h s = Some (Inr (g, s))"
      by (subst ite_store.simps) auto
    ultimately show ?thesis using inv g by auto
  qed
qed

text \<open>
  \<^verbatim>\<open>_ite\<close> on the store returns whenever \<open>ite\<close> on the denoted terms does, and
  returns the address of its result.
\<close>

lemma ite_store_refines:
  "store_inv s \<Longrightarrow> denotes s f tf \<Longrightarrow> denotes s g tg \<Longrightarrow> denotes s h th \<Longrightarrow>
   ite tf tg th = Inr t \<Longrightarrow>
   \<exists>a s'. ite_store f g h s = Some (Inr (a, s')) \<and> store_inv s' \<and> extends s s' \<and> denotes s' a t"
proof (induction tf tg th arbitrary: f g h s t rule: ite_induct)
  case (step tf tg th)
  note inv = step.prems(1) and f = step.prems(2) and g = step.prems(3) and h = step.prems(4)
  show ?case
  proof (cases "shortcut tf tg th")
    case True
    from ite_store_shortcut[OF inv f g h True step.prems(5)] show ?thesis .
  next
    case False
    then have ns: "\<not> (tg = BDDNODEONE \<and> th = BDDNODEZERO)" "\<not> (tg = BDDNODEZERO \<and> th = BDDNODEONE)"
      "tf \<noteq> BDDNODEONE" "tf \<noteq> BDDNODEZERO" "tg \<noteq> th"
      by (auto simp: shortcut_def)
    obtain x where x: "split_root tf tg th = Inr x"
      using ite_error[OF False] step.prems(5) by (cases "split_root tf tg th") auto
    from step.prems(5) obtain tlo thi where
      tlo: "ite (cofactor tf [x \<mapsto> False]) (cofactor tg [x \<mapsto> False]) (cofactor th [x \<mapsto> False]) = Inr tlo"
      and thi: "ite (cofactor tf [x \<mapsto> True]) (cofactor tg [x \<mapsto> True]) (cofactor th [x \<mapsto> True]) = Inr thi"
      and t: "t = obddnode x tlo thi"
      by (auto simp: ite_general[OF False x] split: sum.splits)
    from restrict3_store_refines[OF inv f g h, of "[x \<mapsto> False]"] obtain fv0 gv0 hv0 s0 where
      0: "restrict3_store f g h [x \<mapsto> 0] s = Some (Inr (fv0, gv0, hv0, s0))" "store_inv s0"
         "extends s s0" "denotes s0 fv0 (cofactor tf [x \<mapsto> False])"
         "denotes s0 gv0 (cofactor tg [x \<mapsto> False])" "denotes s0 hv0 (cofactor th [x \<mapsto> False])"
      unfolding spoint_single_False[symmetric] by blast
    from restrict3_store_refines[OF 0(2) denotes_extends[OF f 0(3)] denotes_extends[OF g 0(3)]
        denotes_extends[OF h 0(3)], of "[x \<mapsto> True]"] obtain fv1 gv1 hv1 s1 where
      1: "restrict3_store f g h [x \<mapsto> Suc 0] s0 = Some (Inr (fv1, gv1, hv1, s1))" "store_inv s1"
         "extends s0 s1" "denotes s1 fv1 (cofactor tf [x \<mapsto> True])"
         "denotes s1 gv1 (cofactor tg [x \<mapsto> True])" "denotes s1 hv1 (cofactor th [x \<mapsto> True])"
      unfolding spoint_single_True[symmetric] by blast
    from step.IH[OF False x 1(2) denotes_extends[OF 0(4) 1(3)] denotes_extends[OF 0(5) 1(3)]
        denotes_extends[OF 0(6) 1(3)] tlo] obtain lo s2 where
      2: "ite_store fv0 gv0 hv0 s1 = Some (Inr (lo, s2))" "store_inv s2" "extends s1 s2"
         "denotes s2 lo tlo" by blast
    from step.IH[OF False x 2(2) denotes_extends[OF 1(4) 2(3)] denotes_extends[OF 1(5) 2(3)]
        denotes_extends[OF 1(6) 2(3)] thi] obtain hi s3 where
      3: "ite_store fv1 gv1 hv1 s2 = Some (Inr (hi, s3))" "store_inv s3" "extends s2 s3"
         "denotes s3 hi thi" by blast
    obtain a s4 where 4: "obddnode_store x lo hi s3 = (a, s4)" by (cases "obddnode_store x lo hi s3")
    note r4 = obddnode_store_extends[OF 3(2) denotes_extends[OF 2(4) 3(3)] 3(4) 4]
    have e: "extends s s4"
      using 0(3) 1(3) 2(3) 3(3) r4(3) by (blast intro: extends_trans)
    have cond: "\<not> (g = Suc 0 \<and> h = 0)" "\<not> (g = 0 \<and> h = Suc 0)" "f \<noteq> Suc 0" "f \<noteq> 0" "g \<noteq> h"
      using ns addr_zero[OF inv] addr_one[OF inv] f g h identity_is_equality[OF inv g h]
      by blast+
    have m: "py_min (filter (\<lambda>r. 0 < r) (map root [tf, tg, th])) = Inr x"
      using x by (simp only: split_root_def)
    have "ite_store f g h s = Some (Inr (a, s4))"
      by (subst ite_store.simps)
         (simp add: cond roots_store_denotes[OF inv f g h] m 0(1) 1(1) 2(1) 3(1) 4
            del: map_eq_Cons_conv list.map filter.simps)
    with r4 e t show ?thesis by blast
  qed
qed

section \<open>Diagram objects, their table and the variables\<close>

text \<open>
  A diagram object has an identity of its own (\<open>ident\<close>) and the field \<^verbatim>\<open>node\<close>,
  the address of a node. \<^verbatim>\<open>_BDDS\<close> maps the address of a node to the diagram
  object made for it, and \<^verbatim>\<open>_obdd\<close> is the lookup that creates on \<^verbatim>\<open>KeyError\<close>. An
  \<^verbatim>\<open>OBDDVariable\<close> is one object that is both a \<^verbatim>\<open>Variable\<close> and a diagram.
  The world is the state of the two modules: the node store, \<^verbatim>\<open>_BDDS\<close>, the
  number of diagram objects made, the registry of \<^verbatim>\<open>boolean.py\<close>, and \<^verbatim>\<open>_VARS\<close>.
  Initially \<^verbatim>\<open>_BDDS\<close> holds the two constants \<^verbatim>\<open>BDDZERO\<close> and \<^verbatim>\<open>BDDONE\<close>.
\<close>

record diagram =
  ident :: nat
  dnode :: addr

record svariable = Variable +
  sdiagram :: diagram

record world =
  store :: node_store
  BDDS :: "addr \<rightharpoonup> diagram"
  diagrams_made :: nat
  REGISTRY :: registry
  VARS_s :: "int \<rightharpoonup> svariable"

definition BDDZERO_s :: diagram where
  "BDDZERO_s = \<lparr>ident = 0, dnode = 0\<rparr>"

definition BDDONE_s :: diagram where
  "BDDONE_s = \<lparr>ident = 1, dnode = 1\<rparr>"

definition initial_world :: world where
  "initial_world =
     \<lparr>store = initial_store, BDDS = [0 \<mapsto> BDDZERO_s, 1 \<mapsto> BDDONE_s], diagrams_made = 2,
      REGISTRY = initial_registry, VARS_s = Map.empty\<rparr>"

text \<open>
  \<^verbatim>\<open>_obdd(node)\<close>.
\<close>

definition obdd_store :: "addr \<Rightarrow> world \<Rightarrow> diagram \<times> world" where
  "obdd_store n w =
     (case BDDS w n of
        Some bdd \<Rightarrow> (bdd, w)
      | None \<Rightarrow>
          (let bdd = \<lparr>ident = diagrams_made w, dnode = n\<rparr>
           in (bdd, w\<lparr>BDDS := (BDDS w)(n \<mapsto> bdd), diagrams_made := diagrams_made w + 1\<rparr>)))"

text \<open>
  \<^verbatim>\<open>obddvar(name, index)\<close>: \<^verbatim>\<open>boolean.var\<close>, then the lookup of the uniqid in
  \<^verbatim>\<open>_VARS\<close>; on \<^verbatim>\<open>KeyError\<close>, \<^verbatim>\<open>OBDDVariable(bvar)\<close> runs \<^verbatim>\<open>Variable.__init__\<close> and
  \<^verbatim>\<open>_obddnode(bvar.uniqid, BDDNODEZERO, BDDNODEONE)\<close>, and the new object is
  entered in \<^verbatim>\<open>_VARS\<close> and, unconditionally, in \<^verbatim>\<open>_BDDS\<close>.
\<close>

definition obddvar_store :: "pyobj \<Rightarrow> pyobj \<Rightarrow> world \<Rightarrow> (error + svariable) \<times> world" where
  "obddvar_store name index w =
     (case var name index (REGISTRY w) of
        (Inl e, reg) \<Rightarrow> (Inl e, w\<lparr>REGISTRY := reg\<rparr>)
      | (Inr bvar, reg) \<Rightarrow>
          (case VARS_s w (uniqid bvar) of
             Some v \<Rightarrow> (Inr v, w\<lparr>REGISTRY := reg\<rparr>)
           | None \<Rightarrow>
               (let (v0, reg') = Variable_init (names bvar) (indices bvar) reg;
                    (n, s') = obddnode_store (uniqid bvar) 0 1 (store w);
                    v = Variable.extend v0 \<lparr>sdiagram = \<lparr>ident = diagrams_made w, dnode = n\<rparr>\<rparr>
                in (Inr v,
                    w\<lparr>store := s', BDDS := (BDDS w)(n \<mapsto> sdiagram v),
                      diagrams_made := diagrams_made w + 1, REGISTRY := reg',
                      VARS_s := (VARS_s w)(uniqid bvar \<mapsto> v)\<rparr>))))"

text \<open>
  The operand of an operator is a diagram object or another Python object;
  \<^verbatim>\<open>box\<close> returns the diagram itself or one of the two constants.
\<close>

datatype operand = Diagram diagram | Object pyobj

definition box_store :: "operand \<Rightarrow> error + diagram" where
  "box_store obj =
     (case obj of
        Diagram d \<Rightarrow> Inr d
      | Object x \<Rightarrow>
          if py_eq_int x 0 \<or> py_eq_str x ''0'' then Inr BDDZERO_s
          else if py_eq_int x 1 \<or> py_eq_str x ''1'' then Inr BDDONE_s
          else (case call_boolean x of
                  Inl e \<Rightarrow> Inl e
                | Inr b \<Rightarrow> Inr (if b then BDDONE_s else BDDZERO_s)))"

text \<open>
  The operators: the node function on the store, then \<^verbatim>\<open>_obdd\<close>.
\<close>

definition wrap :: "world \<Rightarrow> (error + addr \<times> node_store) option \<Rightarrow> (error + diagram \<times> world) option" where
  "wrap w res = map_option (map_sum id (\<lambda>(n, s). obdd_store n (w\<lparr>store := s\<rparr>))) res"

definition invert_store :: "diagram \<Rightarrow> world \<Rightarrow> (error + diagram \<times> world) option" where
  "invert_store self w = wrap w (map_option Inr (neg_store (dnode self) (store w)))"

definition or_store :: "diagram \<Rightarrow> operand \<Rightarrow> world \<Rightarrow> (error + diagram \<times> world) option" where
  "or_store self other w =
     (case box_store other of
        Inl e \<Rightarrow> Some (Inl e)
      | Inr b \<Rightarrow> wrap w (ite_store (dnode self) 1 (dnode b) (store w)))"

definition and_store :: "diagram \<Rightarrow> operand \<Rightarrow> world \<Rightarrow> (error + diagram \<times> world) option" where
  "and_store self other w =
     (case box_store other of
        Inl e \<Rightarrow> Some (Inl e)
      | Inr b \<Rightarrow> wrap w (ite_store (dnode self) (dnode b) 0 (store w)))"

definition xor_store :: "diagram \<Rightarrow> operand \<Rightarrow> world \<Rightarrow> (error + diagram \<times> world) option" where
  "xor_store self other w =
     (case box_store other of
        Inl e \<Rightarrow> Some (Inl e)
      | Inr b \<Rightarrow>
          Option.bind (neg_store (dnode b) (store w)) (\<lambda>(nb, s1).
            wrap w (ite_store (dnode self) nb (dnode b) s1)))"

definition rshift_store :: "diagram \<Rightarrow> operand \<Rightarrow> world \<Rightarrow> (error + diagram \<times> world) option" where
  "rshift_store self other w =
     (case box_store other of
        Inl e \<Rightarrow> Some (Inl e)
      | Inr b \<Rightarrow>
          Option.bind (neg_store (dnode self) (store w)) (\<lambda>(nf, s1).
            wrap w (ite_store nf 1 (dnode b) s1)))"

text \<open>
  \<^verbatim>\<open>equivalent\<close>: \<^verbatim>\<open>self.node is other.node\<close>, one comparison of two addresses.
\<close>

definition equivalent_store :: "diagram \<Rightarrow> operand \<Rightarrow> error + bool" where
  "equivalent_store self other =
     (case box_store other of
        Inl e \<Rightarrow> Inl e
      | Inr b \<Rightarrow> Inr (dnode self = dnode b))"

text \<open>
  \<^verbatim>\<open>restrict(point)\<close>: the dictionary comprehension over the items of the point,
  then \<^verbatim>\<open>_restrict\<close> and \<^verbatim>\<open>_obdd\<close>.
\<close>

fun make_npoint_store ::
  "node_store \<Rightarrow> (diagram \<times> operand) list \<Rightarrow> (int \<rightharpoonup> addr) \<Rightarrow> (error + (int \<rightharpoonup> addr)) option" where
  "make_npoint_store s [] np = Some (Inr np)"
| "make_npoint_store s ((v, val) # items) np =
     (case root_store s (dnode v) of
        None \<Rightarrow> None
      | Some r \<Rightarrow>
          (case box_store val of
             Inl e \<Rightarrow> Some (Inl e)
           | Inr b \<Rightarrow> make_npoint_store s items (np(r \<mapsto> dnode b))))"

definition restrict_diagram ::
  "diagram \<Rightarrow> (diagram \<times> operand) list \<Rightarrow> world \<Rightarrow> (error + diagram \<times> world) option" where
  "restrict_diagram self point w =
     Option.bind (make_npoint_store (store w) point Map.empty) (\<lambda>res.
       case res of
         Inl e \<Rightarrow> Some (Inl e)
       | Inr np \<Rightarrow>
           wrap w (map_option (map_sum id (\<lambda>(n, c, s). (n, s)))
                     (restrict_store (dnode self) np Map.empty (store w))))"

subsection \<open>Constructions in a world\<close>

text \<open>
  A construction is run in a world. A variable of a construction is named by
  its uniqid and stands for the object that \<^verbatim>\<open>obddvar\<close> entered in \<^verbatim>\<open>_VARS\<close> under
  it: \<open>build_store (Var u)\<close> returns that object, and the result is
  \<^verbatim>\<open>KeyError\<close> when \<^verbatim>\<open>obddvar\<close> has made no variable with this uniqid. The operands
  of a binary operator are evaluated left to right, each in the world the
  previous step left.
\<close>

definition obind :: "(error + 'a) option \<Rightarrow> ('a \<Rightarrow> (error + 'b) option) \<Rightarrow> (error + 'b) option" where
  "obind m k = (case m of None \<Rightarrow> None | Some (Inl e) \<Rightarrow> Some (Inl e) | Some (Inr x) \<Rightarrow> k x)"

fun point_store :: "world \<Rightarrow> (int \<times> bool) list \<Rightarrow> error + (diagram \<times> operand) list" where
  "point_store w [] = Inr []"
| "point_store w ((u, b) # ps) =
     (case VARS_s w u of
        None \<Rightarrow> Inl KeyError
      | Some v \<Rightarrow>
          (case point_store w ps of
             Inl e \<Rightarrow> Inl e
           | Inr items \<Rightarrow> Inr ((sdiagram v, Object (py_bit b)) # items)))"

fun build_store :: "construction \<Rightarrow> world \<Rightarrow> (error + diagram \<times> world) option" where
  "build_store (Var u) w =
     (case VARS_s w u of None \<Rightarrow> Some (Inl KeyError) | Some v \<Rightarrow> Some (Inr (sdiagram v, w)))"
| "build_store (Const b) w =
     (case box_store (Object (py_bit b)) of Inl e \<Rightarrow> Some (Inl e) | Inr d \<Rightarrow> Some (Inr (d, w)))"
| "build_store (Not c) w = obind (build_store c w) (\<lambda>(d, w1). invert_store d w1)"
| "build_store (Or c1 c2) w =
     obind (build_store c1 w) (\<lambda>(d1, w1).
     obind (build_store c2 w1) (\<lambda>(d2, w2). or_store d1 (Diagram d2) w2))"
| "build_store (And c1 c2) w =
     obind (build_store c1 w) (\<lambda>(d1, w1).
     obind (build_store c2 w1) (\<lambda>(d2, w2). and_store d1 (Diagram d2) w2))"
| "build_store (Xor c1 c2) w =
     obind (build_store c1 w) (\<lambda>(d1, w1).
     obind (build_store c2 w1) (\<lambda>(d2, w2). xor_store d1 (Diagram d2) w2))"
| "build_store (Implies c1 c2) w =
     obind (build_store c1 w) (\<lambda>(d1, w1).
     obind (build_store c2 w1) (\<lambda>(d2, w2). rshift_store d1 (Diagram d2) w2))"
| "build_store (Restrict c ps) w =
     obind (build_store c w) (\<lambda>(d, w1).
       case point_store w1 ps of
         Inl e \<Rightarrow> Some (Inl e)
       | Inr point \<Rightarrow> restrict_diagram d point w1)"

text \<open>
  A diagram is current when it is the entry of its node in \<^verbatim>\<open>_BDDS\<close>. The
  invariant of the world: the node store satisfies its invariant, every entry
  of \<^verbatim>\<open>_BDDS\<close> is stored under its own node, the constants are current, and every
  variable in \<^verbatim>\<open>_VARS\<close> has a positive uniqid, is current, and wraps the node
  \<open>(uniqid, BDDNODEZERO, BDDNODEONE)\<close>. \<open>yields w res t\<close>: the run \<open>res\<close> from \<open>w\<close>
  returned a current diagram whose node denotes \<open>t\<close>, in a world that satisfies
  the invariant and in which everything current in \<open>w\<close> is still current.
\<close>

definition current :: "world \<Rightarrow> diagram \<Rightarrow> bool" where
  "current w d = (BDDS w (dnode d) = Some d)"

definition world_inv :: "world \<Rightarrow> bool" where
  "world_inv w =
     (store_inv (store w) \<and>
      (\<forall>n d. BDDS w n = Some d \<longrightarrow> dnode d = n) \<and>
      current w BDDZERO_s \<and> current w BDDONE_s \<and>
      (\<forall>u v. VARS_s w u = Some v \<longrightarrow>
         0 < u \<and> current w (sdiagram v) \<and>
         denotes (store w) (dnode (sdiagram v)) (Node u BDDNODEZERO BDDNODEONE)))"

definition world_le :: "world \<Rightarrow> world \<Rightarrow> bool" where
  "world_le w w' =
     (extends (store w) (store w') \<and> (\<forall>d. current w d \<longrightarrow> current w' d) \<and>
      VARS_s w' = VARS_s w \<and> REGISTRY w' = REGISTRY w)"

definition yields :: "world \<Rightarrow> (error + diagram \<times> world) option \<Rightarrow> OBDDNode \<Rightarrow> bool" where
  "yields w res t =
     (\<exists>d w'. res = Some (Inr (d, w')) \<and> world_inv w' \<and> world_le w w' \<and> current w' d \<and>
        denotes (store w') (dnode d) t)"

lemma world_le_refl [simp]: "world_le w w"
  by (simp add: world_le_def)

lemma world_le_trans: "world_le w w1 \<Longrightarrow> world_le w1 w2 \<Longrightarrow> world_le w w2"
  unfolding world_le_def using extends_trans by auto

lemma world_inv_store: "world_inv w \<Longrightarrow> store_inv (store w)"
  unfolding world_inv_def by blast

lemma world_inv_BDDS: "world_inv w \<Longrightarrow> BDDS w n = Some d \<Longrightarrow> dnode d = n"
  unfolding world_inv_def by blast

lemma world_inv_VARS:
  "world_inv w \<Longrightarrow> VARS_s w u = Some v \<Longrightarrow>
   0 < u \<and> current w (sdiagram v) \<and>
   denotes (store w) (dnode (sdiagram v)) (Node u BDDNODEZERO BDDNODEONE)"
  unfolding world_inv_def by blast

lemma world_inv_consts: "world_inv w \<Longrightarrow> current w BDDZERO_s \<and> current w BDDONE_s"
  unfolding world_inv_def by blast

lemma wrap_yields:
  assumes inv: "world_inv w" and s: "store_inv s" "extends (store w) s" and n: "denotes s n t"
  shows "yields w (wrap w (Some (Inr (n, s)))) t"
proof -
  define w1 where "w1 = w\<lparr>store := s\<rparr>"
  have sel: "store w1 = s" "BDDS w1 = BDDS w" "VARS_s w1 = VARS_s w"
    "diagrams_made w1 = diagrams_made w" "REGISTRY w1 = REGISTRY w"
    by (simp_all add: w1_def)
  have cur1: "current w1 d = current w d" for d by (simp add: current_def sel)
  have inv1: "world_inv w1"
    unfolding world_inv_def sel cur1
    using s(1) world_inv_BDDS[OF inv] world_inv_consts[OF inv] world_inv_VARS[OF inv]
      denotes_extends[OF _ s(2)]
    by blast
  have le1: "world_le w w1" by (simp add: world_le_def sel cur1 s(2))
  have w: "wrap w (Some (Inr (n, s))) = Some (Inr (obdd_store n w1))"
    by (simp add: wrap_def w1_def)
  show ?thesis
  proof (cases "BDDS w1 n")
    case (Some d)
    then have "obdd_store n w1 = (d, w1)" by (simp add: obdd_store_def)
    moreover from Some world_inv_BDDS[OF inv1] have "dnode d = n" by blast
    moreover from this Some have "current w1 d" by (simp add: current_def)
    ultimately show ?thesis using inv1 le1 n w unfolding yields_def by (auto simp: sel)
  next
    case None
    define d where "d = \<lparr>ident = diagrams_made w1, dnode = n\<rparr>"
    define w2 where "w2 = w1\<lparr>BDDS := (BDDS w1)(n \<mapsto> d), diagrams_made := diagrams_made w1 + 1\<rparr>"
    from None have o: "obdd_store n w1 = (d, w2)"
      by (simp add: obdd_store_def d_def w2_def Let_def)
    have sel2: "store w2 = s" "BDDS w2 = (BDDS w1)(n \<mapsto> d)" "VARS_s w2 = VARS_s w"
      "REGISTRY w2 = REGISTRY w"
      by (simp_all add: w2_def sel)
    have dn: "dnode d = n" by (simp add: d_def)
    have keep: "current w2 d'" if "current w1 d'" for d'
      using that None by (auto simp: current_def sel2)
    have cd: "current w2 d" by (simp add: current_def sel2 dn)
    have inv2: "world_inv w2"
      unfolding world_inv_def
    proof (intro conjI)
      show "store_inv (store w2)" using s(1) by (simp add: sel2)
      show "\<forall>m d'. BDDS w2 m = Some d' \<longrightarrow> dnode d' = m"
        using world_inv_BDDS[OF inv1] dn by (auto simp: sel2)
      show "current w2 BDDZERO_s" "current w2 BDDONE_s"
        using world_inv_consts[OF inv1] keep by blast+
      show "\<forall>u v. VARS_s w2 u = Some v \<longrightarrow> 0 < u \<and> current w2 (sdiagram v) \<and>
          denotes (store w2) (dnode (sdiagram v)) (Node u BDDNODEZERO BDDNODEONE)"
        using world_inv_VARS[OF inv1] keep by (auto simp: sel2 sel)
    qed
    have le2: "world_le w w2"
      using keep s(2) by (simp add: world_le_def sel2 cur1[symmetric])
    from o w inv2 le2 cd n show ?thesis unfolding yields_def by (auto simp: sel2 dn)
  qed
qed

lemma ite_yields:
  assumes inv: "world_inv w" and s: "store_inv s" "extends (store w) s"
    and d: "denotes s f tf" "denotes s g tg" "denotes s h th" and r: "ite tf tg th = Inr t"
  shows "yields w (wrap w (ite_store f g h s)) t"
proof -
  from ite_store_refines[OF s(1) d r] obtain a s' where
    a: "ite_store f g h s = Some (Inr (a, s'))" "store_inv s'" "extends s s'" "denotes s' a t"
    by blast
  from wrap_yields[OF inv a(2) extends_trans[OF s(2) a(3)] a(4)] a(1) show ?thesis by simp
qed

lemma yields_le: "world_le w w1 \<Longrightarrow> yields w1 res t \<Longrightarrow> yields w res t"
  unfolding yields_def using world_le_trans by blast

lemma denotes_consts: "denotes s (dnode BDDZERO_s) BDDNODEZERO" "denotes s (dnode BDDONE_s) BDDNODEONE"
  by (simp_all add: BDDZERO_s_def BDDONE_s_def denotes.zero denotes.one)

lemma box_store_Diagram [simp]: "box_store (Diagram d) = Inr d"
  by (simp add: box_store_def)

lemma box_store_py_bit:
  "box_store (Object (py_bit b)) = Inr (if b then BDDONE_s else BDDZERO_s)"
  by (simp add: box_store_def py_bit_def py_eq_int_def)

lemma invert_yields:
  assumes "world_inv w" and "denotes (store w) (dnode d) t"
  shows "yields w (invert_store d w) (neg t)"
proof -
  from neg_store_refines[OF world_inv_store[OF assms(1)] assms(2)] obtain n s where
    n: "neg_store (dnode d) (store w) = Some (n, s)" "store_inv s" "extends (store w) s"
       "denotes s n (neg t)" by blast
  from wrap_yields[OF assms(1) n(2,3,4)] n(1) show ?thesis by (simp add: invert_store_def)
qed

lemma or_yields:
  assumes "world_inv w" "denotes (store w) (dnode d1) t1" "denotes (store w) (dnode d2) t2"
    and "ite t1 BDDNODEONE t2 = Inr t"
  shows "yields w (or_store d1 (Diagram d2) w) t"
  using ite_yields[OF assms(1) world_inv_store[OF assms(1)] extends_refl assms(2) denotes.one
      assms(3) assms(4)]
  by (simp add: or_store_def)

lemma and_yields:
  assumes "world_inv w" "denotes (store w) (dnode d1) t1" "denotes (store w) (dnode d2) t2"
    and "ite t1 t2 BDDNODEZERO = Inr t"
  shows "yields w (and_store d1 (Diagram d2) w) t"
  using ite_yields[OF assms(1) world_inv_store[OF assms(1)] extends_refl assms(2) assms(3)
      denotes.zero assms(4)]
  by (simp add: and_store_def)

lemma xor_yields:
  assumes "world_inv w" "denotes (store w) (dnode d1) t1" "denotes (store w) (dnode d2) t2"
    and "ite t1 (neg t2) t2 = Inr t"
  shows "yields w (xor_store d1 (Diagram d2) w) t"
proof -
  from neg_store_refines[OF world_inv_store[OF assms(1)] assms(3)] obtain n s where
    n: "neg_store (dnode d2) (store w) = Some (n, s)" "store_inv s" "extends (store w) s"
       "denotes s n (neg t2)" by blast
  from ite_yields[OF assms(1) n(2,3) denotes_extends[OF assms(2) n(3)] n(4)
      denotes_extends[OF assms(3) n(3)] assms(4)] n(1)
  show ?thesis by (simp add: xor_store_def)
qed

lemma rshift_yields:
  assumes "world_inv w" "denotes (store w) (dnode d1) t1" "denotes (store w) (dnode d2) t2"
    and "ite (neg t1) BDDNODEONE t2 = Inr t"
  shows "yields w (rshift_store d1 (Diagram d2) w) t"
proof -
  from neg_store_refines[OF world_inv_store[OF assms(1)] assms(2)] obtain n s where
    n: "neg_store (dnode d1) (store w) = Some (n, s)" "store_inv s" "extends (store w) s"
       "denotes s n (neg t1)" by blast
  from ite_yields[OF assms(1) n(2,3) n(4) denotes.one denotes_extends[OF assms(3) n(3)] assms(4)]
    n(1)
  show ?thesis by (simp add: rshift_store_def)
qed

lemma binary_store_yields:
  assumes y1: "yields w m1 t1"
    and y2: "\<And>d1 w1. m1 = Some (Inr (d1, w1)) \<Longrightarrow> yields w1 (m2 w1) t2"
    and op: "\<And>d1 d2 w2. world_inv w2 \<Longrightarrow> denotes (store w2) (dnode d1) t1 \<Longrightarrow>
               denotes (store w2) (dnode d2) t2 \<Longrightarrow> yields w2 (op d1 (Diagram d2) w2) t"
  shows "yields w (obind m1 (\<lambda>(d1, w1). obind (m2 w1) (\<lambda>(d2, w2). op d1 (Diagram d2) w2))) t"
proof -
  from y1 obtain d1 w1 where 1: "m1 = Some (Inr (d1, w1))" "world_inv w1" "world_le w w1"
    "denotes (store w1) (dnode d1) t1" unfolding yields_def by blast
  from y2[OF 1(1)] obtain d2 w2 where 2: "m2 w1 = Some (Inr (d2, w2))" "world_inv w2"
    "world_le w1 w2" "denotes (store w2) (dnode d2) t2" unfolding yields_def by blast
  have "denotes (store w2) (dnode d1) t1"
    using 1(4) 2(3) denotes_extends unfolding world_le_def by blast
  from op[OF 2(2) this 2(4)] have "yields w2 (op d1 (Diagram d2) w2) t" .
  then have "yields w (op d1 (Diagram d2) w2) t"
    using world_le_trans[OF 1(3) 2(3)] yields_le by blast
  then show ?thesis by (simp add: obind_def 1(1) 2(1))
qed

text \<open>
  A construction is over the variables of a world when each of its variables,
  also those of the points of \<^verbatim>\<open>restrict\<close>, is in \<^verbatim>\<open>_VARS\<close>.
\<close>

fun registered :: "(int \<rightharpoonup> svariable) \<Rightarrow> construction \<Rightarrow> bool" where
  "registered V (Var u) = (V u \<noteq> None)"
| "registered V (Const b) = True"
| "registered V (Not c) = registered V c"
| "registered V (Or c1 c2) = (registered V c1 \<and> registered V c2)"
| "registered V (And c1 c2) = (registered V c1 \<and> registered V c2)"
| "registered V (Xor c1 c2) = (registered V c1 \<and> registered V c2)"
| "registered V (Implies c1 c2) = (registered V c1 \<and> registered V c2)"
| "registered V (Restrict c ps) = (registered V c \<and> list_all (\<lambda>(u, b). V u \<noteq> None) ps)"

definition variable_items :: "world \<Rightarrow> (int \<times> bool) list \<Rightarrow> (diagram \<times> operand) list" where
  "variable_items w ps = map (\<lambda>(u, b). (sdiagram (the (VARS_s w u)), Object (py_bit b))) ps"

lemma point_store_registered:
  "list_all (\<lambda>(u, b). VARS_s w u \<noteq> None) ps \<Longrightarrow> point_store w ps = Inr (variable_items w ps)"
  by (induction ps) (auto simp: variable_items_def)

lemma spoint_upd: "(spoint a)(u \<mapsto> (if b then 1 else 0)) = spoint (a(u \<mapsto> b))"
  by (auto simp: spoint_def)

lemma spoint_empty: "Map.empty = spoint Map.empty"
  by (auto simp: spoint_def)

lemma make_npoint_store_points:
  assumes inv: "world_inv w"
  shows "list_all (\<lambda>(u, b). VARS_s w u \<noteq> None) ps \<Longrightarrow>
    make_npoint_store (store w) (variable_items w ps) (spoint a) =
    Some (Inr (spoint (assignment ps a)))"
proof (induction ps arbitrary: a)
  case Nil
  then show ?case by (simp add: variable_items_def assignment_def)
next
  case (Cons p ps)
  obtain u b where p: "p = (u, b)" by (cases p)
  with Cons.prems obtain v where v: "VARS_s w u = Some v" by auto
  from world_inv_VARS[OF inv v]
  have "denotes (store w) (dnode (sdiagram v)) (Node u BDDNODEZERO BDDNODEONE)" by blast
  from root_store_denotes[OF world_inv_store[OF inv] this]
  have r: "root_store (store w) (dnode (sdiagram v)) = Some u" by simp
  have d: "dnode (if b then BDDONE_s else BDDZERO_s) = (if b then 1 else 0)"
    by (simp add: BDDONE_s_def BDDZERO_s_def)
  from Cons.prems have rest: "list_all (\<lambda>(u, b). VARS_s w u \<noteq> None) ps" by simp
  have "make_npoint_store (store w) (variable_items w (p # ps)) (spoint a) =
        make_npoint_store (store w) (variable_items w ps) (spoint (a(u \<mapsto> b)))"
    by (simp add: variable_items_def p v r box_store_py_bit d spoint_upd del: fun_upd_apply)
  also have "\<dots> = Some (Inr (spoint (assignment ps (a(u \<mapsto> b)))))"
    by (rule Cons.IH[OF rest])
  finally show ?case by (simp add: assignment_def p)
qed

lemma restrict_diagram_yields:
  assumes inv: "world_inv w" and d: "denotes (store w) (dnode d) t"
    and reg: "list_all (\<lambda>(u, b). VARS_s w u \<noteq> None) ps"
  shows "yields w (restrict_diagram d (variable_items w ps) w) (cofactor t (assignment ps Map.empty))"
proof -
  let ?a = "assignment ps Map.empty"
  from make_npoint_store_points[OF inv reg, of Map.empty]
  have np: "make_npoint_store (store w) (variable_items w ps) Map.empty = Some (Inr (spoint ?a))"
    by (simp add: spoint_empty[symmetric])
  from restrict_store_refines[OF world_inv_store[OF inv] d scache_ok_empty, of ?a]
  obtain n c s where r: "restrict_store (dnode d) (spoint ?a) Map.empty (store w) = Some (Inr (n, c, s))"
    "store_inv s" "extends (store w) s" "denotes s n (cofactor t ?a)" by blast
  from wrap_yields[OF inv r(2,3,4)] show ?thesis
    by (simp add: restrict_diagram_def np r(1))
qed

text \<open>
  A construction over the variables of a world returns a diagram, and the node
  of that diagram denotes the node that \<open>build\<close> computes on terms.
\<close>

lemma build_store_refines:
  "world_inv w \<Longrightarrow> registered (VARS_s w) c \<Longrightarrow>
   \<exists>t. build c = Inr (OBDD t) \<and> well_formed t \<and> yields w (build_store c w) t"
proof (induction c arbitrary: w)
  case (Var u)
  then obtain v where v: "VARS_s w u = Some v" by auto
  note V = world_inv_VARS[OF Var.prems(1) v]
  have "yields w (build_store (Var u) w) (Node u BDDNODEZERO BDDNODEONE)"
    unfolding yields_def using V Var.prems(1) by (simp add: v)
  moreover have "build (Var u) = Inr (OBDD (Node u BDDNODEZERO BDDNODEONE))"
    by (simp add: variable_diagram_def obddnode_def)
  moreover have "well_formed (Node u BDDNODEZERO BDDNODEONE)" using V by simp
  ultimately show ?case by blast
next
  case (Const b)
  have "yields w (build_store (Const b) w) (terminal_of b)"
    unfolding yields_def using world_inv_consts[OF Const.prems(1)] Const.prems(1) denotes_consts
    by (cases b) (simp_all add: box_store_py_bit terminal_of_def)
  moreover have "build (Const b) = Inr (OBDD (terminal_of b))" by (simp add: box_py_bit)
  moreover have "well_formed (terminal_of b)" by (simp add: terminal_of_def)
  ultimately show ?case by blast
next
  case (Not c)
  from Not.IH[OF Not.prems(1)] Not.prems(2) obtain t where
    t: "build c = Inr (OBDD t)" "well_formed t" "yields w (build_store c w) t" by auto
  from t(3) obtain d w1 where 1: "build_store c w = Some (Inr (d, w1))" "world_inv w1"
    "world_le w w1" "denotes (store w1) (dnode d) t" unfolding yields_def by blast
  from yields_le[OF 1(3) invert_yields[OF 1(2) 1(4)]]
  have "yields w (build_store (Not c) w) (neg t)" by (simp add: obind_def 1(1))
  moreover have "build (Not c) = Inr (OBDD (neg t))"
    by (simp add: t(1) obdd_invert_def obdd_def)
  ultimately show ?case using well_formed_neg[OF t(2)] by blast
next
  case (Or c1 c2)
  from Or.IH(1)[OF Or.prems(1)] Or.prems(2) obtain t1 where
    1: "build c1 = Inr (OBDD t1)" "well_formed t1" "yields w (build_store c1 w) t1" by auto
  have 2: "\<exists>t2. build c2 = Inr (OBDD t2) \<and> well_formed t2 \<and> yields w1 (build_store c2 w1) t2"
    if "world_inv w1" "world_le w w1" for w1
    using Or.IH(2)[OF that(1)] Or.prems(2) that(2) by (simp add: world_le_def)
  from 1(3) obtain d1 w1 where w1: "build_store c1 w = Some (Inr (d1, w1))" "world_inv w1"
    "world_le w w1" unfolding yields_def by blast
  from 2[OF w1(2,3)] obtain t2 where t2: "build c2 = Inr (OBDD t2)" "well_formed t2" by blast
  from ite_well_formed_result[of t1 BDDNODEONE t2] 1(2) t2(2) obtain t where
    t: "ite t1 BDDNODEONE t2 = Inr t" "well_formed t" by auto
  have "yields w (build_store (Or c1 c2) w) t"
    unfolding build_store.simps
  proof (rule binary_store_yields[OF 1(3), of "\<lambda>w1. build_store c2 w1" t2])
    fix d1 :: diagram and w1 :: world
    assume "build_store c1 w = Some (Inr (d1, w1))"
    with 1(3) have "world_inv w1" "world_le w w1" unfolding yields_def by auto
    from 2[OF this] t2(1) show "yields w1 (build_store c2 w1) t2" by auto
  next
    fix d1 d2 :: diagram and w2 :: world
    assume "world_inv w2" "denotes (store w2) (dnode d1) t1"
      "denotes (store w2) (dnode d2) t2"
    then show "yields w2 (or_store d1 (Diagram d2) w2) t" using t(1) by (rule or_yields)
  qed
  moreover have "build (Or c1 c2) = Inr (OBDD t)"
    by (simp add: binary_def 1(1) t2(1) obdd_or_def t(1) obdd_def)
  ultimately show ?case using t(2) by blast
next
  case (And c1 c2)
  from And.IH(1)[OF And.prems(1)] And.prems(2) obtain t1 where
    1: "build c1 = Inr (OBDD t1)" "well_formed t1" "yields w (build_store c1 w) t1" by auto
  have 2: "\<exists>t2. build c2 = Inr (OBDD t2) \<and> well_formed t2 \<and> yields w1 (build_store c2 w1) t2"
    if "world_inv w1" "world_le w w1" for w1
    using And.IH(2)[OF that(1)] And.prems(2) that(2) by (simp add: world_le_def)
  from 1(3) obtain d1 w1 where w1: "build_store c1 w = Some (Inr (d1, w1))" "world_inv w1"
    "world_le w w1" unfolding yields_def by blast
  from 2[OF w1(2,3)] obtain t2 where t2: "build c2 = Inr (OBDD t2)" "well_formed t2" by blast
  from ite_well_formed_result[of t1 t2 BDDNODEZERO] 1(2) t2(2) obtain t where
    t: "ite t1 t2 BDDNODEZERO = Inr t" "well_formed t" by auto
  have "yields w (build_store (And c1 c2) w) t"
    unfolding build_store.simps
  proof (rule binary_store_yields[OF 1(3), of "\<lambda>w1. build_store c2 w1" t2])
    fix d1 :: diagram and w1 :: world
    assume "build_store c1 w = Some (Inr (d1, w1))"
    with 1(3) have "world_inv w1" "world_le w w1" unfolding yields_def by auto
    from 2[OF this] t2(1) show "yields w1 (build_store c2 w1) t2" by auto
  next
    fix d1 d2 :: diagram and w2 :: world
    assume "world_inv w2" "denotes (store w2) (dnode d1) t1"
      "denotes (store w2) (dnode d2) t2"
    then show "yields w2 (and_store d1 (Diagram d2) w2) t" using t(1) by (rule and_yields)
  qed
  moreover have "build (And c1 c2) = Inr (OBDD t)"
    by (simp add: binary_def 1(1) t2(1) obdd_and_def t(1) obdd_def)
  ultimately show ?case using t(2) by blast
next
  case (Xor c1 c2)
  from Xor.IH(1)[OF Xor.prems(1)] Xor.prems(2) obtain t1 where
    1: "build c1 = Inr (OBDD t1)" "well_formed t1" "yields w (build_store c1 w) t1" by auto
  have 2: "\<exists>t2. build c2 = Inr (OBDD t2) \<and> well_formed t2 \<and> yields w1 (build_store c2 w1) t2"
    if "world_inv w1" "world_le w w1" for w1
    using Xor.IH(2)[OF that(1)] Xor.prems(2) that(2) by (simp add: world_le_def)
  from 1(3) obtain d1 w1 where w1: "build_store c1 w = Some (Inr (d1, w1))" "world_inv w1"
    "world_le w w1" unfolding yields_def by blast
  from 2[OF w1(2,3)] obtain t2 where t2: "build c2 = Inr (OBDD t2)" "well_formed t2" by blast
  from ite_well_formed_result[of t1 "neg t2" t2] 1(2) t2(2) well_formed_neg[OF t2(2)] obtain t where
    t: "ite t1 (neg t2) t2 = Inr t" "well_formed t" by auto
  have "yields w (build_store (Xor c1 c2) w) t"
    unfolding build_store.simps
  proof (rule binary_store_yields[OF 1(3), of "\<lambda>w1. build_store c2 w1" t2])
    fix d1 :: diagram and w1 :: world
    assume "build_store c1 w = Some (Inr (d1, w1))"
    with 1(3) have "world_inv w1" "world_le w w1" unfolding yields_def by auto
    from 2[OF this] t2(1) show "yields w1 (build_store c2 w1) t2" by auto
  next
    fix d1 d2 :: diagram and w2 :: world
    assume "world_inv w2" "denotes (store w2) (dnode d1) t1"
      "denotes (store w2) (dnode d2) t2"
    then show "yields w2 (xor_store d1 (Diagram d2) w2) t" using t(1) by (rule xor_yields)
  qed
  moreover have "build (Xor c1 c2) = Inr (OBDD t)"
    by (simp add: binary_def 1(1) t2(1) obdd_xor_def t(1) obdd_def)
  ultimately show ?case using t(2) by blast
next
  case (Implies c1 c2)
  from Implies.IH(1)[OF Implies.prems(1)] Implies.prems(2) obtain t1 where
    1: "build c1 = Inr (OBDD t1)" "well_formed t1" "yields w (build_store c1 w) t1" by auto
  have 2: "\<exists>t2. build c2 = Inr (OBDD t2) \<and> well_formed t2 \<and> yields w1 (build_store c2 w1) t2"
    if "world_inv w1" "world_le w w1" for w1
    using Implies.IH(2)[OF that(1)] Implies.prems(2) that(2) by (simp add: world_le_def)
  from 1(3) obtain d1 w1 where w1: "build_store c1 w = Some (Inr (d1, w1))" "world_inv w1"
    "world_le w w1" unfolding yields_def by blast
  from 2[OF w1(2,3)] obtain t2 where t2: "build c2 = Inr (OBDD t2)" "well_formed t2" by blast
  from ite_well_formed_result[of "neg t1" BDDNODEONE t2] 1(2) t2(2) well_formed_neg[OF 1(2)]
  obtain t where t: "ite (neg t1) BDDNODEONE t2 = Inr t" "well_formed t" by auto
  have "yields w (build_store (Implies c1 c2) w) t"
    unfolding build_store.simps
  proof (rule binary_store_yields[OF 1(3), of "\<lambda>w1. build_store c2 w1" t2])
    fix d1 :: diagram and w1 :: world
    assume "build_store c1 w = Some (Inr (d1, w1))"
    with 1(3) have "world_inv w1" "world_le w w1" unfolding yields_def by auto
    from 2[OF this] t2(1) show "yields w1 (build_store c2 w1) t2" by auto
  next
    fix d1 d2 :: diagram and w2 :: world
    assume "world_inv w2" "denotes (store w2) (dnode d1) t1"
      "denotes (store w2) (dnode d2) t2"
    then show "yields w2 (rshift_store d1 (Diagram d2) w2) t" using t(1) by (rule rshift_yields)
  qed
  moreover have "build (Implies c1 c2) = Inr (OBDD t)"
    by (simp add: binary_def 1(1) t2(1) obdd_rshift_def t(1) obdd_def)
  ultimately show ?case using t(2) by blast
next
  case (Restrict c ps)
  from Restrict.IH[OF Restrict.prems(1)] Restrict.prems(2) obtain t where
    t: "build c = Inr (OBDD t)" "well_formed t" "yields w (build_store c w) t" by auto
  from t(3) obtain d w1 where 1: "build_store c w = Some (Inr (d, w1))" "world_inv w1"
    "world_le w w1" "denotes (store w1) (dnode d) t" unfolding yields_def by blast
  from Restrict.prems(2) 1(3) have reg: "list_all (\<lambda>(u, b). VARS_s w1 u \<noteq> None) ps"
    by (simp add: world_le_def)
  from yields_le[OF 1(3) restrict_diagram_yields[OF 1(2) 1(4) reg]]
  have "yields w (build_store (Restrict c ps) w) (cofactor t (assignment ps Map.empty))"
    by (simp add: obind_def 1(1) point_store_registered[OF reg])
  moreover have "build (Restrict c ps) = Inr (OBDD (cofactor t (assignment ps Map.empty)))"
    by (simp add: t(1) restrict_points)
  ultimately show ?case using well_formed_cofactor[OF t(2)] by blast
qed

subsection \<open>Sessions\<close>

text \<open>
  The worlds a program can reach: the state of the freshly imported modules,
  then any sequence of calls of \<^verbatim>\<open>obddvar\<close> (valid or not) and of constructions
  over the variables made so far.
\<close>

inductive session :: "world \<Rightarrow> bool" where
  start: "session initial_world"
| create: "session w \<Longrightarrow> session (snd (obddvar_store name index w))"
| construct: "session w \<Longrightarrow> registered (VARS_s w) c \<Longrightarrow>
     build_store c w = Some (Inr (d, w')) \<Longrightarrow> session w'"

text \<open>
  What a session keeps true, besides the invariant of the world: the registry is
  the registry after some sequence of requests, every number in \<^verbatim>\<open>_UNIQIDS\<close> is
  below \<^verbatim>\<open>_COUNT\<close>, the number stored for an identity is the uniqid of its
  variable, and each variable in \<^verbatim>\<open>_VARS\<close> is stored under its own uniqid.
\<close>

definition uniqids_bound :: "registry \<Rightarrow> bool" where
  "uniqids_bound reg = (\<forall>k u. UNIQIDS reg k = Some u \<longrightarrow> u < COUNT reg)"

definition uniqids_agree :: "registry \<Rightarrow> bool" where
  "uniqids_agree reg = (\<forall>k v. VARIABLES reg k = Some v \<longrightarrow> UNIQIDS reg k = Some (uniqid v))"

definition session_inv :: "world \<Rightarrow> bool" where
  "session_inv w =
     (world_inv w \<and> (\<exists>ks. registry_after ks (REGISTRY w)) \<and> uniqids_bound (REGISTRY w) \<and>
      uniqids_agree (REGISTRY w) \<and> (\<forall>u v. VARS_s w u = Some v \<longrightarrow> uniqid v = u))"

lemma world_inv_initial: "world_inv initial_world"
  by (simp add: world_inv_def initial_world_def store_inv_initial current_def BDDZERO_s_def
      BDDONE_s_def)

lemma session_inv_initial: "session_inv initial_world"
proof -
  have "registry_after [] (REGISTRY initial_world)"
    using registry_after_initial by (simp add: initial_world_def)
  moreover have "uniqids_bound (REGISTRY initial_world)"
    by (simp add: uniqids_bound_def initial_world_def initial_registry_def)
  moreover have "uniqids_agree (REGISTRY initial_world)"
    by (simp add: uniqids_agree_def initial_world_def initial_registry_def)
  moreover have "\<forall>u v. VARS_s initial_world u = Some v \<longrightarrow> uniqid v = u"
    by (simp add: initial_world_def)
  ultimately show ?thesis using world_inv_initial unfolding session_inv_def by blast
qed

lemma world_inv_REGISTRY: "world_inv (w\<lparr>REGISTRY := reg\<rparr>) = world_inv w"
  by (simp add: world_inv_def current_def)

lemma var_bound:
  assumes "registry_after ks reg" and "uniqids_bound reg"
  shows "uniqids_bound (snd (var n i reg))"
proof (cases "identity_of n i")
  case (Inl e)
  with assms(2) show ?thesis by (simp add: var_invalid)
next
  case (Inr k)
  show ?thesis
  proof (cases "VARIABLES reg k")
    case (Some v)
    with assms(2) show ?thesis by (simp add: var_hit[OF Inr])
  next
    case None
    with assms(1) have "UNIQIDS reg k = None" unfolding registry_after_def by blast
    from var_miss[OF Inr None this] obtain v reg' where
      r: "var n i reg = (Inr v, reg')" "UNIQIDS reg' = (UNIQIDS reg)(k \<mapsto> COUNT reg)"
        "COUNT reg' = COUNT reg + 1" by blast
    have "uniqids_bound reg'"
      unfolding uniqids_bound_def r(2,3) using assms(2) unfolding uniqids_bound_def
      by (auto simp: less_imp_le intro: less_trans)
    with r(1) show ?thesis by simp
  qed
qed

lemma var_agree:
  assumes "registry_after ks reg" and "uniqids_agree reg"
  shows "uniqids_agree (snd (var n i reg))"
proof (cases "identity_of n i")
  case (Inl e)
  with assms(2) show ?thesis by (simp add: var_invalid)
next
  case (Inr k)
  show ?thesis
  proof (cases "VARIABLES reg k")
    case (Some v)
    with assms(2) show ?thesis by (simp add: var_hit[OF Inr])
  next
    case None
    with assms(1) have "UNIQIDS reg k = None" unfolding registry_after_def by blast
    from var_miss[OF Inr None this] obtain v reg' where
      r: "var n i reg = (Inr v, reg')"
        "v = \<lparr>uniqid = COUNT reg, names = fst k, indices = snd k, obj_id = next_obj reg\<rparr>"
        "VARIABLES reg' = (VARIABLES reg)(k \<mapsto> v)"
        "UNIQIDS reg' = (UNIQIDS reg)(k \<mapsto> COUNT reg)" by blast
    have "uniqid v = COUNT reg" by (simp add: r(2))
    then have "uniqids_agree reg'"
      unfolding uniqids_agree_def r(3,4) using assms(2) unfolding uniqids_agree_def
      by auto
    with r(1) show ?thesis by simp
  qed
qed

lemma first_request_number_pos: "0 < first_request_number k ks"
  by (simp add: first_request_number_def)

lemma Variable_init_known:
  assumes "UNIQIDS reg (ns, idx) = Some u" and "u < COUNT reg"
  shows "Variable_init ns idx reg =
    (\<lparr>uniqid = u, names = ns, indices = idx, obj_id = next_obj reg\<rparr>,
     reg\<lparr>next_obj := next_obj reg + 1\<rparr>)"
  using assms by (simp add: Variable_init_def Let_def)

lemma registry_after_next_obj:
  "registry_after ks (reg\<lparr>next_obj := m\<rparr>) = registry_after ks reg"
  by (simp add: registry_after_def)

lemma uniqids_agree_next_obj: "uniqids_agree (reg\<lparr>next_obj := m\<rparr>) = uniqids_agree reg"
  by (simp add: uniqids_agree_def)

lemma uniqids_bound_next_obj: "uniqids_bound (reg\<lparr>next_obj := m\<rparr>) = uniqids_bound reg"
  by (simp add: uniqids_bound_def)

lemma obddvar_store_step:
  assumes inv: "session_inv w"
  shows "session_inv (snd (obddvar_store name index w)) \<and>
    (\<forall>v. fst (obddvar_store name index w) = Inr v \<longrightarrow>
       (\<exists>bvar reg. var name index (REGISTRY w) = (Inr bvar, reg) \<and> uniqid v = uniqid bvar) \<and>
       VARS_s (snd (obddvar_store name index w)) (uniqid v) = Some v)"
proof -
  from inv obtain ks where wi: "world_inv w" and ra: "registry_after ks (REGISTRY w)"
    and ub: "uniqids_bound (REGISTRY w)" and ua: "uniqids_agree (REGISTRY w)"
    and vu: "\<forall>u v. VARS_s w u = Some v \<longrightarrow> uniqid v = u"
    unfolding session_inv_def by blast
  show ?thesis
  proof (cases "identity_of name index")
    case (Inl e)
    have "obddvar_store name index w = (Inl e, w\<lparr>REGISTRY := REGISTRY w\<rparr>)"
      by (simp add: obddvar_store_def var_invalid[OF Inl])
    then show ?thesis using inv by (simp add: session_inv_def world_inv_REGISTRY)
  next
    case (Inr k)
    from var_step[OF ra Inr] obtain bvar reg1 where
      v: "var name index (REGISTRY w) = (Inr bvar, reg1)" "registry_after (ks @ [k]) reg1"
         "VARIABLES reg1 k = Some bvar" by blast
    from var_bound[OF ra ub, of name index] v(1) have ub1: "uniqids_bound reg1" by simp
    from var_agree[OF ra ua, of name index] v(1) have ua1: "uniqids_agree reg1" by simp
    note bv = registry_after_var[OF v(2) v(3)]
    have pos: "0 < uniqid bvar" using bv(1) first_request_number_pos by simp
    show ?thesis
    proof (cases "VARS_s w (uniqid bvar)")
      case (Some sv)
      have res: "obddvar_store name index w = (Inr sv, w\<lparr>REGISTRY := reg1\<rparr>)"
        by (simp add: obddvar_store_def v(1) Some)
      from vu Some have "uniqid sv = uniqid bvar" by blast
      with res Some wi v(1,2) ub1 ua1 vu show ?thesis
        by (auto simp: session_inv_def world_inv_REGISTRY)
    next
      case None
      let ?u = "uniqid bvar"
      have key: "(names bvar, indices bvar) = k" using bv(2,3) by simp
      from ua1 v(3) have u1: "UNIQIDS reg1 k = Some ?u" unfolding uniqids_agree_def by blast
      with ub1 have "?u < COUNT reg1" unfolding uniqids_bound_def by blast
      from Variable_init_known[OF u1[folded key] this]
      have vi: "Variable_init (names bvar) (indices bvar) reg1 =
        (\<lparr>uniqid = ?u, names = names bvar, indices = indices bvar, obj_id = next_obj reg1\<rparr>,
         reg1\<lparr>next_obj := next_obj reg1 + 1\<rparr>)" .
      define reg2 where "reg2 = reg1\<lparr>next_obj := next_obj reg1 + 1\<rparr>"
      have r2: "registry_after (ks @ [k]) reg2" "uniqids_bound reg2" "uniqids_agree reg2"
        using v(2) ub1 ua1
        by (simp_all add: reg2_def registry_after_next_obj uniqids_bound_next_obj
            uniqids_agree_next_obj)
      obtain n s' where on: "obddnode_store ?u 0 (Suc 0) (store w) = (n, s')"
        by (cases "obddnode_store ?u 0 (Suc 0) (store w)")
      note st = obddnode_store_extends[OF world_inv_store[OF wi] denotes.zero denotes.one on]
      have dn: "denotes s' n (Node ?u BDDNODEZERO BDDNODEONE)"
        using st(2) by (simp add: obddnode_def)
      define dv where "dv = \<lparr>ident = diagrams_made w, dnode = n\<rparr>"
      define sv where "sv = Variable.extend
        \<lparr>uniqid = ?u, names = names bvar, indices = indices bvar, obj_id = next_obj reg1\<rparr>
        \<lparr>sdiagram = dv\<rparr>"
      define w' where "w' = w\<lparr>store := s', BDDS := (BDDS w)(n \<mapsto> dv),
        diagrams_made := diagrams_made w + 1, REGISTRY := reg2,
        VARS_s := (VARS_s w)(?u \<mapsto> sv)\<rparr>"
      have sd: "sdiagram sv = dv" "uniqid sv = ?u" by (simp_all add: sv_def Variable.extend_def)
      have res: "obddvar_store name index w = (Inr sv, w')"
        by (simp add: obddvar_store_def v(1) None vi on Let_def w'_def sv_def dv_def reg2_def
            Variable.extend_def)
      have sel: "store w' = s'" "BDDS w' = (BDDS w)(n \<mapsto> dv)" "REGISTRY w' = reg2"
        "VARS_s w' = (VARS_s w)(?u \<mapsto> sv)"
        by (simp_all add: w'_def)
      have n2: "n \<noteq> 0 \<and> n \<noteq> Suc 0" using denotes_Node_addr[OF st(1) dn] .
      have dnn: "dnode dv = n" by (simp add: dv_def)
      have keep: "current w' d" if "current w d" "dnode d \<noteq> n" for d
        using that by (simp add: current_def sel)
      have wi': "world_inv w'"
        unfolding world_inv_def
      proof (intro conjI)
        show "store_inv (store w')" using st(1) by (simp add: sel)
        show "\<forall>m d. BDDS w' m = Some d \<longrightarrow> dnode d = m"
          using world_inv_BDDS[OF wi] dnn by (auto simp: sel)
        show "current w' BDDZERO_s" "current w' BDDONE_s"
          using world_inv_consts[OF wi] n2 keep
          by (auto simp: BDDZERO_s_def BDDONE_s_def)
        show "\<forall>u v. VARS_s w' u = Some v \<longrightarrow> 0 < u \<and> current w' (sdiagram v) \<and>
            denotes (store w') (dnode (sdiagram v)) (Node u BDDNODEZERO BDDNODEONE)"
        proof (intro allI impI)
          fix u x assume a: "VARS_s w' u = Some x"
          show "0 < u \<and> current w' (sdiagram x) \<and>
            denotes (store w') (dnode (sdiagram x)) (Node u BDDNODEZERO BDDNODEONE)"
          proof (cases "u = ?u")
            case True
            with a have "x = sv" by (simp add: sel)
            with True pos dn show ?thesis by (simp add: sd current_def sel dnn)
          next
            case False
            with a have old: "VARS_s w u = Some x" by (simp add: sel)
            note o = world_inv_VARS[OF wi old]
            from o have d': "denotes s' (dnode (sdiagram x)) (Node u BDDNODEZERO BDDNODEONE)"
              using denotes_extends st(3) by blast
            have "dnode (sdiagram x) \<noteq> n"
            proof
              assume "dnode (sdiagram x) = n"
              with d' dn denotes_functional[OF _ st(1)] have
                "Node u BDDNODEZERO BDDNODEONE = Node ?u BDDNODEZERO BDDNODEONE" by blast
              with False show False by simp
            qed
            with o keep d' show ?thesis by (simp add: sel)
          qed
        qed
      qed
      have vu': "\<forall>u v. VARS_s w' u = Some v \<longrightarrow> uniqid v = u"
        using vu sd(2) by (auto simp: sel)
      have "session_inv w'" using wi' r2 vu' by (auto simp: session_inv_def sel)
      moreover have "VARS_s w' (uniqid sv) = Some sv" by (simp add: sel sd)
      ultimately show ?thesis using res v(1) sd(2) by simp
    qed
  qed
qed

lemma obddvar_store_inv: "session_inv w \<Longrightarrow> session_inv (snd (obddvar_store name index w))"
  using obddvar_store_step by blast

lemma build_store_inv:
  assumes "session_inv w" and "registered (VARS_s w) c" and "build_store c w = Some (Inr (d, w'))"
  shows "session_inv w'"
proof -
  from assms(1) have wi: "world_inv w" by (simp add: session_inv_def)
  from build_store_refines[OF wi assms(2)] assms(3)
  have "world_inv w'" "world_le w w'" unfolding yields_def by auto
  with assms(1) show ?thesis by (simp add: session_inv_def world_le_def)
qed

lemma session_session_inv: "session w \<Longrightarrow> session_inv w"
proof (induction rule: session.induct)
  case start
  show ?case by (rule session_inv_initial)
next
  case (create w name index)
  then show ?case by (simp add: obddvar_store_inv)
next
  case (construct w c d w')
  then show ?case using build_store_inv by blast
qed

lemma registered_positive:
  "world_inv w \<Longrightarrow> registered (VARS_s w) c \<Longrightarrow> uniqids_positive c"
proof (induction c)
  case (Var u)
  then obtain v where "VARS_s w u = Some v" by auto
  from world_inv_VARS[OF Var.prems(1) this] show ?case by simp
qed simp_all

text \<open>
  The variable object that \<^verbatim>\<open>obddvar\<close> returns carries the uniqid of the variable
  that \<^verbatim>\<open>boolean.var\<close> returns for the same arguments, the uniqid is positive,
  the object is the entry of \<^verbatim>\<open>_VARS\<close> under it, and it is the diagram that
  \<open>Var\<close> of this uniqid stands for in a construction.
\<close>

lemma obddvar_store_registers:
  assumes "session w" and "obddvar_store name index w = (Inr v, w')"
  shows "session w'"
    and "\<exists>bvar reg. var name index (REGISTRY w) = (Inr bvar, reg) \<and> uniqid v = uniqid bvar"
    and "0 < uniqid v"
    and "VARS_s w' (uniqid v) = Some v"
    and "build_store (Var (uniqid v)) w' = Some (Inr (sdiagram v, w'))"
proof -
  from session.create[OF assms(1), of name index] assms(2) show s': "session w'" by simp
  from obddvar_store_step[OF session_session_inv[OF assms(1)], of name index] assms(2)
  show "\<exists>bvar reg. var name index (REGISTRY w) = (Inr bvar, reg) \<and> uniqid v = uniqid bvar"
    and r: "VARS_s w' (uniqid v) = Some v" by simp_all
  from session_session_inv[OF s'] have "world_inv w'" by (simp add: session_inv_def)
  from world_inv_VARS[OF this r] show "0 < uniqid v" by simp
  from r show "build_store (Var (uniqid v)) w' = Some (Inr (sdiagram v, w'))" by simp
qed

section \<open>Canonicity and equivalence by identity\<close>

text \<open>
  Claim C1. In any world a session reaches, take two constructions through the
  public operations (variables made by \<^verbatim>\<open>obddvar\<close>, constants, NOT, OR, AND, XOR,
  implication, restrict) and run one after the other. Both return a diagram
  object; the two diagrams wrap the node object at the same address exactly
  when the constructions denote the same Boolean function; two diagram objects
  are the same object exactly when they wrap the same node object; and
  \<^verbatim>\<open>equivalent\<close>, which compares the two addresses and traverses nothing, returns
  true exactly when the functions are equal.
\<close>

theorem canonicity:
  assumes "session w" and "registered (VARS_s w) c1" and "registered (VARS_s w) c2"
  shows "\<exists>d1 w1 d2 w2.
     build_store c1 w = Some (Inr (d1, w1)) \<and> build_store c2 w1 = Some (Inr (d2, w2)) \<and>
     (dnode d1 = dnode d2) = (\<forall>env. denotation c1 env = denotation c2 env) \<and>
     (d1 = d2) = (dnode d1 = dnode d2) \<and>
     equivalent_store d1 (Diagram d2) = Inr (\<forall>env. denotation c1 env = denotation c2 env)"
proof -
  from session_session_inv[OF assms(1)] have wi: "world_inv w" by (simp add: session_inv_def)
  from build_store_refines[OF wi assms(2)] obtain t1 d1 w1 where
    1: "build c1 = Inr (OBDD t1)" "well_formed t1" "build_store c1 w = Some (Inr (d1, w1))"
       "world_inv w1" "world_le w w1" "current w1 d1" "denotes (store w1) (dnode d1) t1"
    unfolding yields_def by blast
  from assms(3) 1(5) have "registered (VARS_s w1) c2" by (simp add: world_le_def)
  from build_store_refines[OF 1(4) this] obtain t2 d2 w2 where
    2: "build c2 = Inr (OBDD t2)" "well_formed t2" "build_store c2 w1 = Some (Inr (d2, w2))"
       "world_inv w2" "world_le w1 w2" "current w2 d2" "denotes (store w2) (dnode d2) t2"
    unfolding yields_def by blast
  from 1(6,7) 2(5) have c1: "current w2 d1" "denotes (store w2) (dnode d1) t1"
    using denotes_extends unfolding world_le_def by blast+
  have addr: "(dnode d1 = dnode d2) = (t1 = t2)"
    by (rule identity_is_equality[OF world_inv_store[OF 2(4)] c1(2) 2(7)])
  from build_represents[OF registered_positive[OF wi assms(2)]] 1(1)
  have e1: "\<forall>env. eval_node t1 env = denotation c1 env" by (auto simp: represents_def)
  from build_represents[OF registered_positive[OF wi assms(3)]] 2(1)
  have e2: "\<forall>env. eval_node t2 env = denotation c2 env" by (auto simp: represents_def)
  have sem: "(t1 = t2) = (\<forall>env. denotation c1 env = denotation c2 env)"
  proof
    assume "t1 = t2" with e1 e2 show "\<forall>env. denotation c1 env = denotation c2 env" by simp
  next
    assume "\<forall>env. denotation c1 env = denotation c2 env"
    with e1 e2 show "t1 = t2" by (intro canonical[OF 1(2) 2(2)]) simp
  qed
  have obj: "(d1 = d2) = (dnode d1 = dnode d2)"
  proof
    assume "dnode d1 = dnode d2"
    with c1(1) 2(6) show "d1 = d2" by (simp add: current_def)
  qed simp
  have "equivalent_store d1 (Diagram d2) = Inr (dnode d1 = dnode d2)"
    by (simp add: equivalent_store_def)
  with addr sem obj 1(3) 2(3) show ?thesis by simp
qed

text \<open>
  The world after \<^verbatim>\<open>a, b, c = map(obddvar, "abc")\<close>, and the diagrams of
  \<^verbatim>\<open>a & b | c\<close> and \<^verbatim>\<open>c | b & a\<close> built in it.
\<close>

definition abc_world :: world where
  "abc_world =
     snd (obddvar_store (PyStr ''c'') PyNone
       (snd (obddvar_store (PyStr ''b'') PyNone
         (snd (obddvar_store (PyStr ''a'') PyNone initial_world)))))"

lemma abc_world_session: "session abc_world"
  unfolding abc_world_def by (intro session.create session.start)

lemma abc_world_VARS:
  "VARS_s abc_world 1 \<noteq> None" "VARS_s abc_world 2 \<noteq> None" "VARS_s abc_world 3 \<noteq> None"
  by code_simp+

lemma abc_registered:
  "registered (VARS_s abc_world) (Or (And (Var 1) (Var 2)) (Var 3))"
  "registered (VARS_s abc_world) (Or (Var 3) (And (Var 2) (Var 1)))"
  using abc_world_VARS by simp_all

theorem canonicity_witness:
  "session abc_world \<and>
   registered (VARS_s abc_world) (Or (And (Var 1) (Var 2)) (Var 3)) \<and>
   registered (VARS_s abc_world) (Or (Var 3) (And (Var 2) (Var 1))) \<and>
   (\<exists>d1 w1 d2 w2.
      build_store (Or (And (Var 1) (Var 2)) (Var 3)) abc_world = Some (Inr (d1, w1)) \<and>
      build_store (Or (Var 3) (And (Var 2) (Var 1))) w1 = Some (Inr (d2, w2)) \<and>
      dnode d1 = dnode d2 \<and> d1 = d2 \<and> equivalent_store d1 (Diagram d2) = Inr True)"
proof -
  have sem: "\<forall>env. denotation (Or (And (Var 1) (Var 2)) (Var 3)) env =
      denotation (Or (Var 3) (And (Var 2) (Var 1))) env"
    by auto
  from canonicity[OF abc_world_session abc_registered] obtain d1 w1 d2 w2 where
    b: "build_store (Or (And (Var 1) (Var 2)) (Var 3)) abc_world = Some (Inr (d1, w1))"
       "build_store (Or (Var 3) (And (Var 2) (Var 1))) w1 = Some (Inr (d2, w2))"
    and n: "(dnode d1 = dnode d2) =
        (\<forall>env. denotation (Or (And (Var 1) (Var 2)) (Var 3)) env =
               denotation (Or (Var 3) (And (Var 2) (Var 1))) env)"
    and o: "(d1 = d2) = (dnode d1 = dnode d2)"
    and e: "equivalent_store d1 (Diagram d2) =
        Inr (\<forall>env. denotation (Or (And (Var 1) (Var 2)) (Var 3)) env =
                   denotation (Or (Var 3) (And (Var 2) (Var 1))) env)"
    by blast
  from n sem have n': "dnode d1 = dnode d2" by blast
  with o have o': "d1 = d2" by blast
  from e sem have e': "equivalent_store d1 (Diagram d2) = Inr True" by simp
  from b n' o' e' have "\<exists>d1 w1 d2 w2.
      build_store (Or (And (Var 1) (Var 2)) (Var 3)) abc_world = Some (Inr (d1, w1)) \<and>
      build_store (Or (Var 3) (And (Var 2) (Var 1))) w1 = Some (Inr (d2, w2)) \<and>
      dnode d1 = dnode d2 \<and> d1 = d2 \<and> equivalent_store d1 (Diagram d2) = Inr True"
    by blast
  with abc_world_session abc_registered show ?thesis by (intro conjI)
qed

end
